theory Spec2Isabelle
  imports Main
begin

section \<open>Provider resolution (resolveTTSProvider)\<close>

text \<open>
  A provider exposes its name and the answer of \<open>isAvailable()\<close> in the current
  environment. The registry \<open>PROVIDERS\<close> is a plain JavaScript object: reading
  \<open>PROVIDERS[name]\<close> finds the object's own properties first and then the
  properties every object inherits from \<open>Object.prototype\<close>.
\<close>

record provider =
  provider_name :: string
  isAvailable :: bool

datatype 'a js_property = Undefined | Own 'a | Inherited

datatype js_error = TypeError

definition object_prototype_keys :: "string list" where
  "object_prototype_keys =
     [''constructor'', ''__proto__'', ''hasOwnProperty'', ''isPrototypeOf'',
      ''propertyIsEnumerable'', ''toLocaleString'', ''toString'', ''valueOf'',
      ''__defineGetter__'', ''__defineSetter__'', ''__lookupGetter__'',
      ''__lookupSetter__'']"

definition js_get :: "(string \<rightharpoonup> 'a) \<Rightarrow> string \<Rightarrow> 'a js_property" where
  "js_get obj k =
     (case obj k of
        Some v \<Rightarrow> Own v
      | None \<Rightarrow> if k \<in> set object_prototype_keys then Inherited else Undefined)"

text \<open>
  \<open>for (const name of priority) { const factory = PROVIDERS[name];
  if (!factory) continue; const provider = factory();
  if (provider.isAvailable()) return provider; } return null;\<close>

  An inherited property is truthy, so the loop does not skip it; calling it as a
  factory, or calling \<open>isAvailable\<close> on what it returns, raises a TypeError.
\<close>

fun resolveTTSProvider ::
  "(string \<rightharpoonup> provider) \<Rightarrow> string list \<Rightarrow> js_error + provider option" where
  "resolveTTSProvider registry [] = Inr None"
| "resolveTTSProvider registry (n # priority) =
     (case js_get registry n of
        Undefined \<Rightarrow> resolveTTSProvider registry priority
      | Inherited \<Rightarrow> Inl TypeError
      | Own p \<Rightarrow> if isAvailable p then Inr (Some p)
                else resolveTTSProvider registry priority)"

text \<open>The environment the five registered providers read in \<open>isAvailable()\<close>.\<close>

record environment =
  platform :: string
  ELEVENLABS_API_KEY :: string
  OPENAI_API_KEY :: string
  UNREAL_SPEECH_API_KEY :: string
  DEEPSEEK_API_KEY :: string
  deepseek_endpoint :: string

definition PROVIDERS :: "environment \<Rightarrow> string \<rightharpoonup> provider" where
  "PROVIDERS env =
     [''native'' \<mapsto> \<lparr>provider_name = ''native'', isAvailable = (platform env = ''darwin'')\<rparr>,
      ''elevenlabs'' \<mapsto> \<lparr>provider_name = ''elevenlabs'',
                          isAvailable = (ELEVENLABS_API_KEY env \<noteq> [])\<rparr>,
      ''openai'' \<mapsto> \<lparr>provider_name = ''openai'', isAvailable = (OPENAI_API_KEY env \<noteq> [])\<rparr>,
      ''unreal-speech'' \<mapsto> \<lparr>provider_name = ''unreal-speech'',
                             isAvailable = (UNREAL_SPEECH_API_KEY env \<noteq> [])\<rparr>,
      ''deepseek'' \<mapsto> \<lparr>provider_name = ''deepseek'',
                        isAvailable = (DEEPSEEK_API_KEY env \<noteq> [] \<and> deepseek_endpoint env \<noteq> [])\<rparr>]"


section \<open>Activity log (appendToJsonLog, logTTSActivity)\<close>

text \<open>
  JSON values. \<open>JSON.parse\<close> and \<open>JSON.stringify\<close> belong to the platform and are
  parameters of the model: \<open>parse raw = None\<close> stands for a \<open>SyntaxError\<close>.
  The file system is a map from paths to file contents; \<open>mkdirSync\<close> with
  \<open>recursive: true\<close> does not change any file.
\<close>

datatype json =
    JNull
  | JBool bool
  | JNum int
  | JStr string
  | JArr "json list"
  | JObj "(string \<times> json) list"

type_synonym files = "string \<rightharpoonup> string"

fun isArray :: "json \<Rightarrow> bool" where
  "isArray (JArr xs) = True"
| "isArray _ = False"

text \<open>
  \<open>let logData = []; if (existsSync(logPath)) { try { const parsed =
  JSON.parse(readFileSync(logPath)); if (Array.isArray(parsed)) logData = parsed; }
  catch { logData = []; } }\<close>
\<close>

definition readLogData :: "(string \<Rightarrow> json option) \<Rightarrow> files \<Rightarrow> string \<Rightarrow> json list" where
  "readLogData parse fs logPath =
     (case fs logPath of
        None \<Rightarrow> []
      | Some raw \<Rightarrow>
          (case parse raw of
             None \<Rightarrow> []
           | Some (JArr xs) \<Rightarrow> xs
           | Some _ \<Rightarrow> []))"

text \<open>\<open>logData.push(entry); writeFileSync(logPath, JSON.stringify(logData, null, 2));\<close>\<close>

definition appendToJsonLog ::
  "(string \<Rightarrow> json option) \<Rightarrow> (json \<Rightarrow> string) \<Rightarrow> string \<Rightarrow> json \<Rightarrow> files \<Rightarrow> files" where
  "appendToJsonLog parse stringify logPath entry fs =
     fs(logPath \<mapsto> stringify (JArr (readLogData parse fs logPath @ [entry])))"

definition ACTIVITY_LOG_PATH :: string where
  "ACTIVITY_LOG_PATH = ''logs/tts_activity.json''"

text \<open>Decimal rendering of a number, as \<open>String(n)\<close> and template strings do.\<close>

definition digit_char :: "nat \<Rightarrow> char" where
  "digit_char d = char_of (48 + d)"

fun decimal :: "nat \<Rightarrow> string" where
  "decimal n = (if n < 10 then [digit_char n] else decimal (n div 10) @ [digit_char (n mod 10)])"

declare decimal.simps [simp del]

text \<open>
  The entry a hook passes to \<open>logTTSActivity\<close>; \<open>error\<close> is \<open>undefined\<close> on
  success and \<open>JSON.stringify\<close> leaves an undefined property out.
\<close>

record activity =
  hookType :: string
  sessionId :: string
  agentName :: "string option"
  agentType :: "string option"
  message :: string
  provider :: string
  durationMs :: int
  success :: bool
  error :: "string option"

definition nullable :: "string option \<Rightarrow> json" where
  "nullable v = (case v of None \<Rightarrow> JNull | Some s \<Rightarrow> JStr s)"

definition activity_fields :: "activity \<Rightarrow> (string \<times> json) list" where
  "activity_fields e =
     [(''hookType'', JStr (hookType e)), (''sessionId'', JStr (sessionId e)),
      (''agentName'', nullable (agentName e)), (''agentType'', nullable (agentType e)),
      (''message'', JStr (message e)), (''provider'', JStr (provider e)),
      (''durationMs'', JNum (durationMs e)), (''success'', JBool (success e))]
     @ (case error e of None \<Rightarrow> [] | Some msg \<Rightarrow> [(''error'', JStr msg)])"

text \<open>
  \<open>const id = `${Date.now()}-${entry.hookType}-${randomHex}`;
  const fullEntry = { id, timestamp, ...entry };\<close>
  The clock (\<open>nowMs\<close>, \<open>isoNow\<close>) and \<open>Math.random\<close> (\<open>randomHex\<close>) are inputs.
\<close>

definition fullEntry :: "nat \<Rightarrow> string \<Rightarrow> string \<Rightarrow> activity \<Rightarrow> json" where
  "fullEntry nowMs isoNow randomHex e =
     JObj ((''id'', JStr (decimal nowMs @ ''-'' @ hookType e @ ''-'' @ randomHex))
           # (''timestamp'', JStr isoNow) # activity_fields e)"

definition logTTSActivity ::
  "(string \<Rightarrow> json option) \<Rightarrow> (json \<Rightarrow> string) \<Rightarrow> nat \<Rightarrow> string \<Rightarrow> string \<Rightarrow>
   activity \<Rightarrow> files \<Rightarrow> files" where
  "logTTSActivity parse stringify nowMs isoNow randomHex e fs =
     appendToJsonLog parse stringify ACTIVITY_LOG_PATH (fullEntry nowMs isoNow randomHex e) fs"

section \<open>Speech backends (speak)\<close>

text \<open>
  What a \<open>speak\<close> call meets outside the program: the answer to its HTTP request,
  whether the audio file can be written, and how each spawned player ends.
  \<open>say_run k\<close> is the end of the \<open>k\<close>-th run of \<open>say\<close> within one call.
\<close>

datatype fetch_result = NetworkError | Response nat string

datatype proc_result = SpawnFailed | Exited int

record speak_env =
  os :: string
  fetched :: fetch_result
  write_ok :: bool
  player :: "string \<Rightarrow> proc_result"
  say_run :: "nat \<Rightarrow> proc_result"
  endpoint_configured :: bool

datatype speak_error =
    SayExited int
  | SpawnError string
  | FetchFailed
  | WriteFailed
  | ApiError string nat
  | PlayerExited string int
  | NoAudioPlayer
  | EndpointMissing

datatype sound = CloudAudio | NativeVoice string

text \<open>
  The result of a call: \<open>Inl e\<close> when the promise rejects with \<open>e\<close>, \<open>Inr ()\<close> when
  it resolves; with it the sounds that were played to the end (a player that exited
  with code 0), and the number of \<open>say\<close> runs so far.
\<close>

type_synonym spoken = "(speak_error + unit) \<times> sound list"

definition ok :: "fetch_result \<Rightarrow> bool" where
  "ok r = (case r of NetworkError \<Rightarrow> False | Response status body \<Rightarrow> 200 \<le> status \<and> status \<le> 299)"

text \<open>
  NativeTTSProvider (lib/tts/native.ts): available on macOS only;
  \<open>const exitCode = await proc.exited; if (exitCode !== 0) throw new Error(...)\<close>.
\<close>

definition native_isAvailable :: "speak_env \<Rightarrow> bool" where
  "native_isAvailable env = (os env = ''darwin'')"

definition native_speak :: "speak_env \<Rightarrow> nat \<Rightarrow> string \<Rightarrow> spoken" where
  "native_speak env k text =
     (case say_run env k of
        SpawnFailed \<Rightarrow> (Inl (SpawnError ''say''), [])
      | Exited exitCode \<Rightarrow>
          if exitCode \<noteq> 0 then (Inl (SayExited exitCode), [])
          else (Inr (), [NativeVoice text]))"

text \<open>
  playAudioFile (lib/tts/playback.ts): \<open>afplay\<close> on macOS and PowerShell on Windows,
  each checked for exit code 0; elsewhere the first of \<open>mpg123\<close>, \<open>ffplay\<close>,
  \<open>paplay\<close> that starts and exits with 0, and an error when none does.
\<close>

fun try_players :: "speak_env \<Rightarrow> string list \<Rightarrow> spoken" where
  "try_players env [] = (Inl NoAudioPlayer, [])"
| "try_players env (cmd # cmds) =
     (case player env cmd of
        SpawnFailed \<Rightarrow> try_players env cmds
      | Exited code \<Rightarrow> if code = 0 then (Inr (), [CloudAudio]) else try_players env cmds)"

definition checked_player :: "speak_env \<Rightarrow> string \<Rightarrow> spoken" where
  "checked_player env cmd =
     (case player env cmd of
        SpawnFailed \<Rightarrow> (Inl (SpawnError cmd), [])
      | Exited code \<Rightarrow> if code \<noteq> 0 then (Inl (PlayerExited cmd code), [])
                       else (Inr (), [CloudAudio]))"

definition playAudioFile :: "speak_env \<Rightarrow> spoken" where
  "playAudioFile env =
     (if os env = ''darwin'' then checked_player env ''afplay''
      else if os env = ''win32'' then checked_player env ''powershell''
      else try_players env [''mpg123'', ''ffplay'', ''paplay''])"

text \<open>
  OpenAI, UnrealSpeech and DeepSeek share one shape: \<open>fetch\<close>, \<open>if (!response.ok)
  throw\<close>, write the audio to a temporary file, \<open>playAudioFile\<close>. Nothing is caught.
\<close>

definition cloud_speak :: "string \<Rightarrow> speak_env \<Rightarrow> spoken" where
  "cloud_speak api env =
     (case fetched env of
        NetworkError \<Rightarrow> (Inl FetchFailed, [])
      | Response status body \<Rightarrow>
          if \<not> ok (fetched env) then (Inl (ApiError api status), [])
          else if \<not> write_ok env then (Inl WriteFailed, [])
          else playAudioFile env)"

definition deepseek_speak :: "speak_env \<Rightarrow> spoken" where
  "deepseek_speak env =
     (if \<not> endpoint_configured env then (Inl EndpointMissing, [])
      else cloud_speak ''DeepSeek TTS'' env)"

text \<open>
  ElevenLabsTTSProvider.speak. The body of its \<open>try\<close> block: a response that is not
  ok and reports an exhausted quota falls back to native \<open>say\<close> (when available) and
  returns; any other failure is thrown. The exit code of \<open>afplay\<close> is awaited and
  not looked at.
\<close>

definition lower_char :: "char \<Rightarrow> char" where
  "lower_char c =
     (if (65::nat) \<le> of_char c \<and> of_char c \<le> (90::nat) then char_of (of_char c + (32::nat)) else c)"

fun str_includes :: "string \<Rightarrow> string \<Rightarrow> bool" where
  "str_includes [] needle = (needle = [])"
| "str_includes (c # cs) needle =
     (take (length needle) (c # cs) = needle \<or> str_includes cs needle)"

definition quota_exceeded :: "string \<Rightarrow> bool" where
  "quota_exceeded errorText =
     (str_includes errorText ''quota_exceeded''
      \<or> str_includes (map lower_char errorText) ''credits remaining'')"

definition elevenlabs_try :: "speak_env \<Rightarrow> string \<Rightarrow> spoken \<times> nat" where
  "elevenlabs_try env text =
     (case fetched env of
        NetworkError \<Rightarrow> ((Inl FetchFailed, []), 0)
      | Response status errorText \<Rightarrow>
          if \<not> ok (fetched env) then
            (if quota_exceeded errorText then
               (if native_isAvailable env then (native_speak env 0 text, 1)
                else ((Inr (), []), 0))
             else ((Inl (ApiError ''ElevenLabs'' status), []), 0))
          else if \<not> write_ok env then ((Inl WriteFailed, []), 0)
          else
            (case player env ''afplay'' of
               SpawnFailed \<Rightarrow> ((Inl (SpawnError ''afplay''), []), 0)
             | Exited code \<Rightarrow> ((Inr (), if code = 0 then [CloudAudio] else []), 0)))"

text \<open>
  \<open>catch (err) { const native = new NativeTTSProvider();
  if (native.isAvailable()) { await native.speak(text); } }\<close>
\<close>

definition elevenlabs_speak :: "speak_env \<Rightarrow> string \<Rightarrow> spoken" where
  "elevenlabs_speak env text =
     (case elevenlabs_try env text of
        ((Inr u, sounds), k) \<Rightarrow> (Inr u, sounds)
      | ((Inl err, sounds), k) \<Rightarrow>
          if native_isAvailable env then
            (case native_speak env k text of (r, sounds') \<Rightarrow> (r, sounds @ sounds'))
          else (Inr (), sounds))"

datatype backend = Native | ElevenLabs | OpenAI | UnrealSpeech | DeepSeek

fun speak :: "backend \<Rightarrow> speak_env \<Rightarrow> string \<Rightarrow> spoken" where
  "speak Native env text = native_speak env 0 text"
| "speak ElevenLabs env text = elevenlabs_speak env text"
| "speak OpenAI env text = cloud_speak ''OpenAI TTS'' env"
| "speak UnrealSpeech env text = cloud_speak ''UnrealSpeech'' env"
| "speak DeepSeek env text = deepseek_speak env"

section \<open>Text normalizer (normalizeTTSText)\<close>

text \<open>
  Text is a list of code units below 256. The character classes of the regular
  expressions: \<open>\s\<close>, \<open>\d\<close>, \<open>[a-zA-Z]\<close>, \<open>\w\<close>, \<open>[0-9a-f]\<close> under the \<open>i\<close> flag.
\<close>

definition code :: "char \<Rightarrow> nat" where
  "code c = of_char c"

definition is_space :: "char \<Rightarrow> bool" where
  "is_space c = (code c = 32 \<or> (9 \<le> code c \<and> code c \<le> 13) \<or> code c = 160)"

definition is_digit :: "char \<Rightarrow> bool" where
  "is_digit c = (48 \<le> code c \<and> code c \<le> 57)"

definition is_alpha :: "char \<Rightarrow> bool" where
  "is_alpha c = ((65 \<le> code c \<and> code c \<le> 90) \<or> (97 \<le> code c \<and> code c \<le> 122))"

definition is_alnum :: "char \<Rightarrow> bool" where
  "is_alnum c = (is_alpha c \<or> is_digit c)"

definition is_word :: "char \<Rightarrow> bool" where
  "is_word c = (is_alnum c \<or> c = CHR ''_'')"

definition is_hex_letter :: "char \<Rightarrow> bool" where
  "is_hex_letter c = ((65 \<le> code c \<and> code c \<le> 70) \<or> (97 \<le> code c \<and> code c \<le> 102))"

definition is_hex :: "char \<Rightarrow> bool" where
  "is_hex c = (is_digit c \<or> is_hex_letter c)"

definition starts_with :: "string \<Rightarrow> string \<Rightarrow> bool" where
  "starts_with p s = (take (length p) s = p)"

text \<open>
  \<open>s.replace(re, f)\<close> for a global \<open>re\<close> that never matches the empty string. The
  matcher answers, for the text before a position (its last character is all that
  \<open>\b\<close> and the lookbehind read) and the text from it, the length of the match that
  starts there. The search resumes behind each match, on the original text.
\<close>

function replace_all ::
  "(char option \<Rightarrow> string \<Rightarrow> nat option) \<Rightarrow> (string \<Rightarrow> string) \<Rightarrow> char option \<Rightarrow> string \<Rightarrow> string"
where
  "replace_all m f prev [] = []"
| "replace_all m f prev (c # cs) =
     (case m prev (c # cs) of
        Some (Suc k) \<Rightarrow>
          f (c # take k cs) @ replace_all m f (Some (last (c # take k cs))) (drop k cs)
      | _ \<Rightarrow> c # replace_all m f (Some c) cs)"
  by pat_completeness auto
termination
  by (relation "measure (\<lambda>(m, f, prev, s). length s)") auto

fun split_on :: "char \<Rightarrow> string \<Rightarrow> string list" where
  "split_on d [] = [[]]"
| "split_on d (c # cs) =
     (if c = d then [] # split_on d cs
      else (case split_on d cs of x # xs \<Rightarrow> (c # x) # xs | [] \<Rightarrow> [[c]]))"

fun join :: "string \<Rightarrow> string list \<Rightarrow> string" where
  "join d [] = []"
| "join d [x] = x"
| "join d (x # y # ys) = x @ d @ join d (y # ys)"

subsection \<open>The four simplifiers\<close>

text \<open>
  \<open>new URL(url).hostname\<close> is the platform's URL parser, a parameter of the model:
  \<open>None\<close> when the constructor throws.
\<close>

fun strip_scheme :: "string \<Rightarrow> string" where
  "strip_scheme [] = []"
| "strip_scheme (c # cs) =
     (if starts_with ''https://'' (c # cs) then drop 8 (c # cs)
      else if starts_with ''http://'' (c # cs) then drop 7 (c # cs)
      else c # strip_scheme cs)"

definition speak_dots :: "string \<Rightarrow> string" where
  "speak_dots host = concat (map (\<lambda>c. if c = CHR ''.'' then '' dot '' else [c]) host)"

definition simplifyUrl :: "(string \<Rightarrow> string option) \<Rightarrow> string \<Rightarrow> string" where
  "simplifyUrl hostname url =
     (case hostname url of
        Some host \<Rightarrow> speak_dots (if starts_with ''www.'' host then drop 4 host else host)
      | None \<Rightarrow> hd (split_on CHR ''/'' (strip_scheme url)))"

definition simplifyPath :: "string \<Rightarrow> string" where
  "simplifyPath path =
     (let segments = filter (\<lambda>s. s \<noteq> []) (split_on CHR ''/'' path) in
      if length segments \<le> 2 then join ''/'' segments
      else
        let file = segments ! (length segments - 1);
            parent = segments ! (length segments - 2)
        in if CHR ''.'' \<in> set file then file else parent @ ''/'' @ file)"

definition simplifyHex :: "string \<Rightarrow> string" where
  "simplifyHex hex = ''hash '' @ take 6 hex"

definition simplifyDottedPath :: "string \<Rightarrow> string" where
  "simplifyDottedPath dottedPath =
     (let parts = split_on CHR ''.'' dottedPath in parts ! (length parts - 1))"

subsection \<open>The patterns\<close>

text \<open>\<open>/https?:\/\/[^\s,)}\]]+/g\<close>\<close>

definition url_char :: "char \<Rightarrow> bool" where
  "url_char c = (\<not> is_space c \<and> c \<noteq> CHR '','' \<and> c \<noteq> CHR '')'' \<and> c \<noteq> CHR ''}'' \<and> c \<noteq> CHR '']'')"

definition match_url :: "char option \<Rightarrow> string \<Rightarrow> nat option" where
  "match_url prev s =
     (let n = (if starts_with ''https://'' s then 8 else if starts_with ''http://'' s then 7 else 0);
          run = takeWhile url_char (drop n s)
      in if n = 0 \<or> run = [] then None else Some (n + length run))"

text \<open>
  A chain \<open>seg/seg/.../seg\<close> of non-empty segments of one character class, as long
  as it goes: what \<open>(?:[C]+\/){2,}[C]+\<close> matches when the chain has three segments
  or more (each \<open>[C]+\<close> runs to the next character outside the class, which must be
  a slash for the chain to go on).
\<close>

lemma dropWhile_Cons_shorter: "dropWhile P s = d # rest \<Longrightarrow> length rest < length s"
  using length_dropWhile_le [of P s] by simp

function segments_at :: "(char \<Rightarrow> bool) \<Rightarrow> string \<Rightarrow> string list" where
  "segments_at C s =
     (if takeWhile C s = [] then []
      else
        (case dropWhile C s of
           [] \<Rightarrow> [takeWhile C s]
         | d # rest \<Rightarrow>
             if d = CHR ''/'' \<and> segments_at C rest \<noteq> []
             then takeWhile C s # segments_at C rest
             else [takeWhile C s]))"
  by pat_completeness auto
termination
  by (relation "measure (\<lambda>(C, s). length s)") (auto dest: dropWhile_Cons_shorter)

text \<open>\<open>/\/(?:[^\s/]+\/){2,}[^\s/]+/g\<close>\<close>

definition abs_char :: "char \<Rightarrow> bool" where
  "abs_char c = (\<not> is_space c \<and> c \<noteq> CHR ''/'')"

definition match_abs :: "char option \<Rightarrow> string \<Rightarrow> nat option" where
  "match_abs prev s =
     (case s of
        [] \<Rightarrow> None
      | c # cs \<Rightarrow>
          if c = CHR ''/'' \<and> 3 \<le> length (segments_at abs_char cs)
          then Some (1 + length (join ''/'' (segments_at abs_char cs)))
          else None)"

text \<open>\<open>/(?<![:\w])(?:[a-zA-Z0-9_.-]+\/){2,}[a-zA-Z0-9_.-]+/g\<close>\<close>

definition rel_char :: "char \<Rightarrow> bool" where
  "rel_char c = (is_word c \<or> c = CHR ''.'' \<or> c = CHR ''-'')"

definition match_rel :: "char option \<Rightarrow> string \<Rightarrow> nat option" where
  "match_rel prev s =
     (if (case prev of None \<Rightarrow> True | Some p \<Rightarrow> p \<noteq> CHR '':'' \<and> \<not> is_word p)
         \<and> 3 \<le> length (segments_at rel_char s)
      then Some (length (join ''/'' (segments_at rel_char s)))
      else None)"

definition relative_path :: "string \<Rightarrow> string" where
  "relative_path m =
     (if length (filter (\<lambda>s. s \<noteq> []) (split_on CHR ''/'' m)) < 3 then m else simplifyPath m)"

text \<open>
  \<open>/\b[0-9a-f]{8,}\b/gi\<close>: a run of hexadecimal digits between two word boundaries.
  Inside the run there is no boundary, so the match is the whole run or nothing.
\<close>

definition boundary_before :: "char option \<Rightarrow> bool" where
  "boundary_before prev = (case prev of None \<Rightarrow> True | Some p \<Rightarrow> \<not> is_word p)"

definition boundary_after :: "string \<Rightarrow> bool" where
  "boundary_after rest = (case rest of [] \<Rightarrow> True | c # cs \<Rightarrow> \<not> is_word c)"

definition match_hex :: "char option \<Rightarrow> string \<Rightarrow> nat option" where
  "match_hex prev s =
     (if boundary_before prev \<and> 8 \<le> length (takeWhile is_hex s)
         \<and> boundary_after (dropWhile is_hex s)
      then Some (length (takeWhile is_hex s))
      else None)"

definition hex_run :: "string \<Rightarrow> string" where
  "hex_run m = (if (\<exists>c \<in> set m. is_digit c) \<and> (\<exists>c \<in> set m. is_hex_letter c) then simplifyHex m else m)"

text \<open>
  \<open>/\b[a-zA-Z][a-zA-Z0-9]*(?:\.[a-zA-Z][a-zA-Z0-9]*){3,}\b/g\<close>: identifiers joined by
  single dots, as many as follow; when the last of them is followed by a word
  character (an underscore) the match gives that identifier back.
\<close>

function idents_at :: "string \<Rightarrow> string list" where
  "idents_at s =
     (case s of
        [] \<Rightarrow> []
      | c # cs \<Rightarrow>
          if \<not> is_alpha c then []
          else
            (case dropWhile is_alnum cs of
               [] \<Rightarrow> [c # takeWhile is_alnum cs]
             | d # rest \<Rightarrow>
                 if d = CHR ''.'' \<and> idents_at rest \<noteq> []
                 then (c # takeWhile is_alnum cs) # idents_at rest
                 else [c # takeWhile is_alnum cs]))"
  by pat_completeness auto
termination
  by (relation "measure length") (auto dest: dropWhile_Cons_shorter)

definition dotted_at :: "string \<Rightarrow> string list" where
  "dotted_at s =
     (let ids = idents_at s in
      if boundary_after (drop (length (join ''.'' ids)) s) then ids else butlast ids)"

definition match_dotted :: "char option \<Rightarrow> string \<Rightarrow> nat option" where
  "match_dotted prev s =
     (if boundary_before prev \<and> 4 \<le> length (dotted_at s)
      then Some (length (join ''.'' (dotted_at s)))
      else None)"

definition known_extensions :: "string list" where
  "known_extensions =
     [''com'', ''org'', ''net'', ''io'', ''dev'', ''js'', ''ts'', ''py'', ''go'', ''rs'',
      ''java'', ''css'', ''html'']"

definition ends_with_extension :: "string \<Rightarrow> bool" where
  "ends_with_extension m =
     (\<exists>ext \<in> set known_extensions.
        length ext < length m
        \<and> map lower_char (drop (length m - length ext - 1) m) = CHR ''.'' # ext)"

definition dotted_path :: "string \<Rightarrow> string" where
  "dotted_path m = (if ends_with_extension m then m else simplifyDottedPath m)"

text \<open>\<open>result.replace(/  +/g, ' ').trim()\<close>\<close>

definition match_spaces :: "char option \<Rightarrow> string \<Rightarrow> nat option" where
  "match_spaces prev s =
     (if 2 \<le> length (takeWhile (\<lambda>c. c = CHR '' '') s)
      then Some (length (takeWhile (\<lambda>c. c = CHR '' '') s))
      else None)"

definition trim :: "string \<Rightarrow> string" where
  "trim s = rev (dropWhile is_space (rev (dropWhile is_space s)))"

definition normalizeTTSText :: "(string \<Rightarrow> string option) \<Rightarrow> string \<Rightarrow> string" where
  "normalizeTTSText hostname text =
     (let result = replace_all match_url (simplifyUrl hostname) None text;
          result = replace_all match_abs simplifyPath None result;
          result = replace_all match_rel relative_path None result;
          result = replace_all match_hex hex_run None result;
          result = replace_all match_dotted dotted_path None result
      in trim (replace_all match_spaces (\<lambda>m. '' '') None result))"


section \<open>The announcement queue (acquireLock, releaseLock, speakWithLock)\<close>

subsection \<open>Process identifiers in the lock file\<close>

text \<open>
  \<open>parseInt(content, 10)\<close>: leading white space, an optional sign, then decimal
  digits up to the first other character; \<open>None\<close> is \<open>NaN\<close>. Numbers are
  mathematical integers here (process identifiers are far below \<open>2^53\<close>).
\<close>

definition digits_value :: "string \<Rightarrow> nat" where
  "digits_value ds = foldl (\<lambda>acc c. 10 * acc + (code c - 48)) 0 ds"

definition parseInt :: "string \<Rightarrow> int option" where
  "parseInt str =
     (let s = dropWhile is_space str;
          signed = (case s of [] \<Rightarrow> False | c # cs \<Rightarrow> c = CHR ''-'' \<or> c = CHR ''+'');
          negative = (case s of [] \<Rightarrow> False | c # cs \<Rightarrow> c = CHR ''-'');
          ds = takeWhile is_digit (if signed then tl s else s)
      in if ds = [] then None
         else Some (if negative then - int (digits_value ds) else int (digits_value ds)))"

subsection \<open>The lock file and the world around one process\<close>

text \<open>
  One process runs against a world: the lock file (absent, or its content), a clock
  in milliseconds, and the trace of what the process did. Other processes act
  between any two of its operations: before each operation the next entry of the
  schedule lets time pass and may leave the lock file in any state. An empty
  schedule is a world without interference. \<open>dir_blocked\<close> says that the lock
  directory, when it is missing, cannot be created (no permission, a file in its
  place). The failures of an operation on the lock file are the file being there
  (\<open>wx\<close>) or not being there (read, unlink).
\<close>

datatype event =
    Create bool
  | Read "string option"
  | Unlink bool
  | Exists bool
  | Probe int bool
  | Speak string
  | Warn
  | Sleep

datatype interference = Quiet | Leaves "string option"

record tick =
  elapsed :: nat
  others :: interference

record world =
  lock :: "string option"
  now :: nat
  schedule :: "tick list"
  trace :: "event list"
  dir_blocked :: bool

definition advance :: "world \<Rightarrow> world" where
  "advance w =
     (case schedule w of
        [] \<Rightarrow> w
      | t # ts \<Rightarrow>
          w\<lparr>lock := (case others t of Quiet \<Rightarrow> lock w | Leaves v \<Rightarrow> v),
            now := now w + elapsed t, schedule := ts\<rparr>)"

definition logged :: "event \<Rightarrow> world \<Rightarrow> world" where
  "logged e w = w\<lparr>trace := trace w @ [e]\<rparr>"

text \<open>
  \<open>writeFileSync(LOCK_FILE, String(process.pid), { flag: 'wx' })\<close> opens the file,
  which throws when the file exists and creates it empty otherwise, and then writes
  the pid through its descriptor. Between the two the other processes may act: they
  can only unlink the file or put another in its place, and the write does not show
  in a file that is not the one that was created. \<open>True\<close> when the call returns,
  \<open>False\<close> when it throws.
\<close>

definition write_pid :: "nat \<Rightarrow> world \<Rightarrow> world" where
  "write_pid pid w =
     (case schedule w of
        [] \<Rightarrow> w\<lparr>lock := Some (decimal pid)\<rparr>
      | t # ts \<Rightarrow>
          w\<lparr>lock := (case others t of Quiet \<Rightarrow> Some (decimal pid) | Leaves v \<Rightarrow> v),
            now := now w + elapsed t, schedule := ts\<rparr>)"

definition create :: "nat \<Rightarrow> world \<Rightarrow> bool \<times> world" where
  "create pid w =
     (let w1 = advance w in
      case lock w1 of
        None \<Rightarrow> (True, logged (Create True) (write_pid pid (w1\<lparr>lock := Some []\<rparr>)))
      | Some content \<Rightarrow> (False, logged (Create False) w1))"

text \<open>\<open>readFileSync(LOCK_FILE, 'utf-8')\<close>: \<open>None\<close> when it throws (no such file).\<close>

definition read :: "world \<Rightarrow> string option \<times> world" where
  "read w = (let w1 = advance w in (lock w1, logged (Read (lock w1)) w1))"

text \<open>\<open>unlinkSync(LOCK_FILE)\<close>: \<open>False\<close> when it throws (no such file).\<close>

definition unlink :: "world \<Rightarrow> bool \<times> world" where
  "unlink w =
     (let w1 = advance w in (lock w1 \<noteq> None, logged (Unlink (lock w1 \<noteq> None)) (w1\<lparr>lock := None\<rparr>)))"

definition existsSync :: "world \<Rightarrow> bool \<times> world" where
  "existsSync w = (let w1 = advance w in (lock w1 \<noteq> None, logged (Exists (lock w1 \<noteq> None)) w1))"

text \<open>\<open>isPidAlive(pid)\<close>: \<open>process.kill(pid, 0)\<close> returns or throws; \<open>alive\<close> tells which.\<close>

definition isPidAlive :: "(int \<Rightarrow> bool) \<Rightarrow> int \<Rightarrow> world \<Rightarrow> bool \<times> world" where
  "isPidAlive alive p w = (let w1 = advance w in (alive p, logged (Probe p (alive p)) w1))"

subsection \<open>acquireLock\<close>

text \<open>
  \<open>mkdirSync(LOCK_DIR, { recursive: true })\<close>, the first statement of \<open>acquireLock\<close>
  and outside its \<open>try\<close>: \<open>True\<close> when it returns, \<open>False\<close> when it throws. It
  returns when the directory is there, which it is whenever the lock file is, and
  when it can create the directory.
\<close>

definition mkdirSync :: "world \<Rightarrow> bool" where
  "mkdirSync w = (lock w \<noteq> None \<or> \<not> dir_blocked w)"

text \<open>The stale branch: \<open>try { unlinkSync(LOCK_FILE) } catch {}\<close>, then one more
  \<open>wx\<close> write whose success is the result.\<close>

definition remove_and_retry :: "nat \<Rightarrow> world \<Rightarrow> bool option \<times> world" where
  "remove_and_retry pid w = (case create pid (snd (unlink w)) of (b, w1) \<Rightarrow> (Some b, w1))"

text \<open>\<open>Some b\<close> when \<open>acquireLock\<close> returns \<open>b\<close>; \<open>None\<close> when it throws, which only
  \<open>mkdirSync\<close> can make it do, before the lock file is touched.\<close>

definition acquireLock :: "nat \<Rightarrow> (int \<Rightarrow> bool) \<Rightarrow> world \<Rightarrow> bool option \<times> world" where
  "acquireLock pid alive w =
     (if \<not> mkdirSync w then (None, w)
      else
        (case create pid w of
           (True, w1) \<Rightarrow> (Some True, w1)
         | (False, w1) \<Rightarrow>
             (case read w1 of
                (None, w2) \<Rightarrow> (Some False, snd (unlink w2))
              | (Some content, w2) \<Rightarrow>
                  (case parseInt (trim content) of
                     None \<Rightarrow> remove_and_retry pid w2
                   | Some holdingPid \<Rightarrow>
                       (case isPidAlive alive holdingPid w2 of
                          (True, w3) \<Rightarrow> (Some False, w3)
                        | (False, w3) \<Rightarrow> remove_and_retry pid w3)))))"

subsection \<open>releaseLock\<close>

text \<open>
  \<open>try { if (existsSync(LOCK_FILE)) { const content = readFileSync(...).trim();
  if (parseInt(content, 10) === process.pid) unlinkSync(LOCK_FILE); } } catch {}\<close>:
  a read or an unlink that throws ends in the \<open>catch\<close>.
\<close>

definition releaseLock :: "nat \<Rightarrow> world \<Rightarrow> world" where
  "releaseLock pid w =
     (case existsSync w of
        (False, w1) \<Rightarrow> w1
      | (True, w1) \<Rightarrow>
          (case read w1 of
             (None, w2) \<Rightarrow> w2
           | (Some content, w2) \<Rightarrow>
               if parseInt (trim content) = Some (int pid) then snd (unlink w2) else w2))"

subsection \<open>speakWithLock\<close>

record config =
  queue_enabled :: bool
  maxWaitMs :: int

definition pollIntervalMs :: nat where
  "pollIntervalMs = 200"

text \<open>\<open>provider.speak(text)\<close>: \<open>None\<close> when the promise resolves, \<open>Some err\<close> when it
  rejects with \<open>err\<close>.\<close>

type_synonym tts = "string \<Rightarrow> string option"

definition speak_now :: "tts \<Rightarrow> string \<Rightarrow> world \<Rightarrow> string option \<times> world" where
  "speak_now prov text w = (let w1 = advance w in (prov text, logged (Speak text) w1))"

definition sleep :: "world \<Rightarrow> world" where
  "sleep w = (let w1 = advance w in logged Sleep (w1\<lparr>now := now w1 + pollIntervalMs\<rparr>))"

text \<open>
  \<open>while (!acquireLock()) { if (Date.now() - startTime > maxWaitMs) {
  console.error(...); try { unlinkSync(LOCK_FILE) } catch {};
  if (!acquireLock()) { await provider.speak(normalized); return; } break; }
  await new Promise(resolve => setTimeout(resolve, pollIntervalMs)); }\<close>

  The loop ends holding the lock (\<open>Some True\<close>) or having given it up
  (\<open>Some False\<close>), or it is left by an \<open>acquireLock\<close> that throws (\<open>None\<close>).
\<close>

function wait_for_lock ::
  "config \<Rightarrow> nat \<Rightarrow> (int \<Rightarrow> bool) \<Rightarrow> nat \<Rightarrow> world \<Rightarrow> bool option \<times> world" where
  "wait_for_lock cfg pid alive startTime w =
     (case acquireLock pid alive w of
        (None, w1) \<Rightarrow> (None, w1)
      | (Some True, w1) \<Rightarrow> (Some True, w1)
      | (Some False, w1) \<Rightarrow>
          if int (now w1) - int startTime > maxWaitMs cfg
          then acquireLock pid alive (snd (unlink (logged Warn w1)))
          else wait_for_lock cfg pid alive startTime (sleep w1))"
  by pat_completeness auto

text \<open>
  The loop ends: the clock never runs backwards, every round sleeps for the poll
  interval, and the round after the maximum wait leaves the loop.
\<close>

lemma now_advance: "now w \<le> now (advance w)"
  by (simp add: advance_def split: list.splits)

lemma now_write_pid: "now w \<le> now (write_pid pid w)"
  by (simp add: write_pid_def split: list.splits)

lemma now_create: "create pid w = (b, w1) \<Longrightarrow> now w \<le> now w1"
  using now_advance [of w] now_write_pid [of "(advance w)\<lparr>lock := Some []\<rparr>" pid]
  by (auto simp: create_def logged_def Let_def split: option.splits)

lemma now_read: "read w = (c, w1) \<Longrightarrow> now w \<le> now w1"
  using now_advance [of w] by (auto simp: read_def logged_def Let_def)

lemma now_unlink: "unlink w = (b, w1) \<Longrightarrow> now w \<le> now w1"
  using now_advance [of w] by (auto simp: unlink_def logged_def Let_def)

lemma now_isPidAlive: "isPidAlive alive p w = (b, w1) \<Longrightarrow> now w \<le> now w1"
  using now_advance [of w] by (auto simp: isPidAlive_def logged_def Let_def)

lemma now_remove_and_retry: "remove_and_retry pid w = (b, w1) \<Longrightarrow> now w \<le> now w1"
  unfolding remove_and_retry_def
  using now_unlink [OF surjective_pairing, of w]
    now_create [where pid = pid and w = "snd (unlink w)", OF surjective_pairing]
  by (auto split: prod.splits)

lemma now_acquireLock: "acquireLock pid alive w = (b, w1) \<Longrightarrow> now w \<le> now w1"
  unfolding acquireLock_def
  by (auto split: prod.splits option.splits bool.splits if_splits
      dest!: now_create now_read now_isPidAlive now_remove_and_retry
      intro: order_trans [OF _ now_unlink [OF surjective_pairing]])

lemma now_sleep: "now w < now (sleep w)"
  using now_advance [of w] by (simp add: sleep_def logged_def Let_def pollIntervalMs_def)

termination wait_for_lock
proof (relation "measure (\<lambda>(cfg, pid, alive, startTime, w).
          nat (int startTime + maxWaitMs cfg + 1 - int (now w)))", goal_cases)
  case 1
  show ?case by simp
next
  case (2 cfg pid alive startTime w x w1 b)
  then have "now w \<le> now w1" by (auto dest: now_acquireLock [OF sym])
  with 2 now_sleep [of w1] show ?case by simp
qed

declare wait_for_lock.simps [simp del]



text \<open>
  The error of a \<open>mkdirSync\<close> that throws. Nothing in \<open>speakWithLock\<close> catches it,
  so the promise rejects with it: neither \<open>provider.speak\<close> nor \<open>releaseLock\<close> runs.
\<close>

definition mkdir_failed :: string where
  "mkdir_failed = ''mkdirSync''"

definition speakWithLock ::
  "config \<Rightarrow> nat \<Rightarrow> (int \<Rightarrow> bool) \<Rightarrow> (string \<Rightarrow> string option) \<Rightarrow> tts \<Rightarrow> string \<Rightarrow> world
   \<Rightarrow> string option \<times> world" where
  "speakWithLock cfg pid alive hostname prov text w =
     (let normalized = normalizeTTSText hostname text in
      if \<not> queue_enabled cfg then speak_now prov normalized w
      else
        (case wait_for_lock cfg pid alive (now w) w of
           (None, w1) \<Rightarrow> (Some mkdir_failed, w1)
         | (Some False, w1) \<Rightarrow> speak_now prov normalized w1
         | (Some True, w1) \<Rightarrow>
             (case speak_now prov normalized w1 of (r, w2) \<Rightarrow> (r, releaseLock pid w2))))"

subsection \<open>Several processes on one lock file\<close>

text \<open>
  The same code, one file-system operation at a time, so that the operations of
  several processes interleave. A process is at a point of \<open>speakWithLock\<close>; the
  phase tells whether its \<open>acquireLock\<close> call is one of the polling loop or the one
  after the forced unlink.

  \<open>writeFileSync\<close> with flag \<open>wx\<close> is two operations: it opens the file, which
  creates it empty or fails, and then writes the pid through the descriptor it holds
  (point \<open>Writing\<close>). The lock file is therefore known by its creator and its
  content: a write to a file that was unlinked in between does not show in the file
  that has its name by then. \<open>blocked\<close> says that the lock directory, when it is
  missing, cannot be created.
\<close>

datatype phase = Polling | Final

datatype point =
    Idle
  | MakeDir phase
  | TryCreate phase
  | Writing
  | TryRead phase
  | Probing phase int
  | StaleUnlink phase
  | Retry phase
  | Cleanup phase
  | Failed phase
  | ForceUnlink
  | Speaking
  | RelExists
  | RelRead
  | RelUnlink
  | DirectSpeaking
  | Threw
  | Done

datatype remark = Plain | ReadMissing | ReadUnparsable | TimedOut

record system =
  lockfile :: "(nat \<times> string) option"
  at :: "nat \<Rightarrow> point"
  blocked :: bool

definition move :: "nat \<Rightarrow> point \<Rightarrow> system \<Rightarrow> system" where
  "move p pt s = s\<lparr>at := (at s)(p := pt)\<rparr>"

definition write_lock :: "nat \<Rightarrow> (nat \<times> string) option \<Rightarrow> point \<Rightarrow> system \<Rightarrow> system" where
  "write_lock p file pt s = s\<lparr>lockfile := file, at := (at s)(p := pt)\<rparr>"

text \<open>
  One operation of process \<open>p\<close>. \<open>expired\<close> is what the clock says when the loop
  compares the time waited with \<open>maxWaitMs\<close>. The remark records the events that
  depend on timing: a read that finds the file gone, a read that finds a content
  that is no number (the file of a process that has not written its pid yet is
  empty), and a wait that ran out.
\<close>

definition proc_step :: "(int \<Rightarrow> bool) \<Rightarrow> bool \<Rightarrow> nat \<Rightarrow> system \<Rightarrow> system \<times> remark" where
  "proc_step alive expired p s =
     (case at s p of
        Idle \<Rightarrow> (move p (MakeDir Polling) s, Plain)
      | MakeDir ph \<Rightarrow>
          (move p (if lockfile s = None \<and> blocked s then Threw else TryCreate ph) s, Plain)
      | TryCreate ph \<Rightarrow>
          (case lockfile s of
             None \<Rightarrow> (write_lock p (Some (p, [])) Writing s, Plain)
           | Some file \<Rightarrow> (move p (TryRead ph) s, Plain))
      | Writing \<Rightarrow>
          (case lockfile s of
             None \<Rightarrow> (move p Speaking s, Plain)
           | Some (creator, content) \<Rightarrow>
               if creator = p then (write_lock p (Some (p, decimal p)) Speaking s, Plain)
               else (move p Speaking s, Plain))
      | TryRead ph \<Rightarrow>
          (case lockfile s of
             None \<Rightarrow> (move p (Cleanup ph) s, ReadMissing)
           | Some (creator, content) \<Rightarrow>
               (case parseInt (trim content) of
                  None \<Rightarrow> (move p (StaleUnlink ph) s, ReadUnparsable)
                | Some holdingPid \<Rightarrow> (move p (Probing ph holdingPid) s, Plain)))
      | Probing ph holdingPid \<Rightarrow>
          (move p (if alive holdingPid then Failed ph else StaleUnlink ph) s, Plain)
      | StaleUnlink ph \<Rightarrow> (write_lock p None (Retry ph) s, Plain)
      | Retry ph \<Rightarrow>
          (case lockfile s of
             None \<Rightarrow> (write_lock p (Some (p, [])) Writing s, Plain)
           | Some file \<Rightarrow> (move p (Failed ph) s, Plain))
      | Cleanup ph \<Rightarrow> (write_lock p None (Failed ph) s, Plain)
      | Failed ph \<Rightarrow>
          (case ph of
             Polling \<Rightarrow>
               if expired then (move p ForceUnlink s, TimedOut)
               else (move p (MakeDir Polling) s, Plain)
           | Final \<Rightarrow> (move p DirectSpeaking s, Plain))
      | ForceUnlink \<Rightarrow> (write_lock p None (MakeDir Final) s, Plain)
      | Speaking \<Rightarrow> (move p RelExists s, Plain)
      | RelExists \<Rightarrow> (move p (if lockfile s \<noteq> None then RelRead else Done) s, Plain)
      | RelRead \<Rightarrow>
          (case lockfile s of
             None \<Rightarrow> (move p Done s, Plain)
           | Some (creator, content) \<Rightarrow>
               (move p (if parseInt (trim content) = Some (int p) then RelUnlink else Done) s,
                Plain))
      | RelUnlink \<Rightarrow> (write_lock p None Done s, Plain)
      | DirectSpeaking \<Rightarrow> (move p Done s, Plain)
      | Threw \<Rightarrow> (s, Plain)
      | Done \<Rightarrow> (s, Plain))"

text \<open>A run follows a schedule: which process moves next, and what its clock says.\<close>

fun run :: "(int \<Rightarrow> bool) \<Rightarrow> (nat \<times> bool) list \<Rightarrow> system \<Rightarrow> system \<times> remark list" where
  "run alive [] s = (s, [])"
| "run alive ((p, expired) # sched) s =
     (case proc_step alive expired p s of
        (s1, r) \<Rightarrow> (case run alive sched s1 of (s2, rs) \<Rightarrow> (s2, r # rs)))"

text \<open>Holding: from the return of the successful \<open>wx\<close> write to the end of
  \<open>releaseLock\<close>.\<close>

fun holding :: "point \<Rightarrow> bool" where
  "holding Speaking = True"
| "holding RelExists = True"
| "holding RelRead = True"
| "holding RelUnlink = True"
| "holding pt = False"

definition started :: system where
  "started = \<lparr>lockfile = None, at = (\<lambda>p. Idle), blocked = False\<rparr>"

subsection \<open>Reading a trace\<close>


fun spoken :: "event list \<Rightarrow> string list" where
  "spoken [] = []"
| "spoken (Speak t # es) = t # spoken es"
| "spoken (e # es) = spoken es"

section \<open>Properties of provider resolution\<close>

lemma resolve_first_available:
  "set priority \<inter> set object_prototype_keys = {} \<Longrightarrow>
   resolveTTSProvider registry priority =
     Inr (List.find isAvailable (List.map_filter registry priority))"
  by (induction priority)
     (auto simp: js_get_def List.map_filter_simps split: option.splits)

text \<open>
  C7. With \<open>"constructor"\<close> in the priority list the lookup finds the property
  inherited from \<open>Object.prototype\<close>, which is not skipped as an unknown name: the
  call raises a TypeError instead of returning the available native provider.
\<close>

theorem resolve_inherited_name_throws:
  "resolveTTSProvider (PROVIDERS env) [''constructor'', ''native''] = Inl TypeError"
  by (simp add: js_get_def PROVIDERS_def object_prototype_keys_def)

section \<open>Properties of the activity log\<close>

lemma readLogData_corrupted:
  assumes "fs logPath = Some raw"
    and "parse raw = None \<or> (\<exists>j. parse raw = Some j \<and> \<not> isArray j)"
  shows "readLogData parse fs logPath = []"
proof -
  from assms(2) show ?thesis
  proof
    assume "parse raw = None"
    with assms(1) show ?thesis by (simp add: readLogData_def)
  next
    assume "\<exists>j. parse raw = Some j \<and> \<not> isArray j"
    then obtain j where j: "parse raw = Some j" "\<not> isArray j" by blast
    then show ?thesis using assms(1) by (cases j) (simp_all add: readLogData_def)
  qed
qed

text \<open>
  C9. When the activity log exists and its content is not valid JSON, or is valid
  JSON that is not an array, \<open>logTTSActivity\<close> writes a log holding exactly the new
  entry; and once that file parses back to the array written, the next call appends
  to it.
\<close>

theorem record_corrupted_log_starts_fresh:
  assumes "fs ACTIVITY_LOG_PATH = Some raw"
    and "parse raw = None \<or> (\<exists>j. parse raw = Some j \<and> \<not> isArray j)"
  shows "logTTSActivity parse stringify nowMs isoNow randomHex e fs
           = fs(ACTIVITY_LOG_PATH \<mapsto> stringify (JArr [fullEntry nowMs isoNow randomHex e]))
         \<and> (parse (stringify (JArr [fullEntry nowMs isoNow randomHex e]))
               = Some (JArr [fullEntry nowMs isoNow randomHex e]) \<longrightarrow>
            logTTSActivity parse stringify nowMs' isoNow' randomHex' e'
              (logTTSActivity parse stringify nowMs isoNow randomHex e fs)
            = fs(ACTIVITY_LOG_PATH \<mapsto> stringify (JArr [fullEntry nowMs isoNow randomHex e,
                                                       fullEntry nowMs' isoNow' randomHex' e'])))"
proof -
  have fresh: "readLogData parse fs ACTIVITY_LOG_PATH = []"
    using assms by (rule readLogData_corrupted)
  have first: "logTTSActivity parse stringify nowMs isoNow randomHex e fs
      = fs(ACTIVITY_LOG_PATH \<mapsto> stringify (JArr [fullEntry nowMs isoNow randomHex e]))"
    by (simp add: logTTSActivity_def appendToJsonLog_def fresh)
  show ?thesis
    unfolding first
    by (simp add: logTTSActivity_def appendToJsonLog_def readLogData_def)
qed

definition sample_activity :: activity where
  "sample_activity =
     \<lparr>hookType = ''stop'', sessionId = ''s1'', agentName = None, agentType = None,
      message = ''Done'', provider = ''native'', durationMs = 1200, success = True,
      error = None\<rparr>"

definition sample_parse :: "string \<Rightarrow> json option" where
  "sample_parse raw =
     (if raw = ''one'' then Some (JArr [fullEntry 5 ''t5'' ''ab'' sample_activity]) else None)"

definition sample_stringify :: "json \<Rightarrow> string" where
  "sample_stringify j =
     (if j = JArr [fullEntry 5 ''t5'' ''ab'' sample_activity] then ''one'' else ''more'')"

theorem record_corrupted_log_witness:
  "[ACTIVITY_LOG_PATH \<mapsto> ''{oops''] ACTIVITY_LOG_PATH = Some ''{oops''
   \<and> sample_parse ''{oops'' = None
   \<and> logTTSActivity sample_parse sample_stringify 5 ''t5'' ''ab'' sample_activity
        [ACTIVITY_LOG_PATH \<mapsto> ''{oops''] = [ACTIVITY_LOG_PATH \<mapsto> ''one'']
   \<and> sample_parse (sample_stringify (JArr [fullEntry 5 ''t5'' ''ab'' sample_activity]))
        = Some (JArr [fullEntry 5 ''t5'' ''ab'' sample_activity])
   \<and> logTTSActivity sample_parse sample_stringify 9 ''t9'' ''cd'' sample_activity
        (logTTSActivity sample_parse sample_stringify 5 ''t5'' ''ab'' sample_activity
           [ACTIVITY_LOG_PATH \<mapsto> ''{oops'']) = [ACTIVITY_LOG_PATH \<mapsto> ''more'']"
proof -
  have exists: "[ACTIVITY_LOG_PATH \<mapsto> ''{oops''] ACTIVITY_LOG_PATH = Some ''{oops''"
    by simp
  have corrupt: "sample_parse ''{oops'' = None
       \<or> (\<exists>j. sample_parse ''{oops'' = Some j \<and> \<not> isArray j)"
    by (simp add: sample_parse_def)
  have roundtrip: "sample_parse (sample_stringify (JArr [fullEntry 5 ''t5'' ''ab'' sample_activity]))
        = Some (JArr [fullEntry 5 ''t5'' ''ab'' sample_activity])"
    by (simp add: sample_parse_def sample_stringify_def)
  have more: "sample_stringify (JArr [fullEntry 5 ''t5'' ''ab'' sample_activity,
                 fullEntry 9 ''t9'' ''cd'' sample_activity]) = ''more''"
    by (simp add: sample_stringify_def)
  have one: "sample_stringify (JArr [fullEntry 5 ''t5'' ''ab'' sample_activity]) = ''one''"
    by (simp add: sample_stringify_def)
  show ?thesis
    using record_corrupted_log_starts_fresh
        [where fs = "[ACTIVITY_LOG_PATH \<mapsto> ''{oops'']" and raw = "''{oops''"
           and parse = sample_parse and stringify = sample_stringify
           and nowMs = 5 and isoNow = "''t5''" and randomHex = "''ab''" and e = sample_activity
           and nowMs' = 9 and isoNow' = "''t9''" and randomHex' = "''cd''"
           and e' = sample_activity, OF exists corrupt]
      exists roundtrip
    unfolding one more
    by (intro conjI; (simp (no_asm_use) add: sample_parse_def)?; blast)
qed

section \<open>Properties of the speech backends\<close>

lemma try_players_sound:
  "try_players env cmds = (r, sounds) \<Longrightarrow> (r = Inr ()) = (sounds \<noteq> [])"
  by (induction cmds) (auto split: proc_result.splits if_splits)

lemma playAudioFile_sound:
  "playAudioFile env = (r, sounds) \<Longrightarrow> (r = Inr ()) = (sounds \<noteq> [])"
  by (auto simp: playAudioFile_def checked_player_def dest: try_players_sound
           split: proc_result.splits if_splits)

lemma cloud_speak_sound:
  "cloud_speak api env = (r, sounds) \<Longrightarrow> (r = Inr ()) = (sounds \<noteq> [])"
  by (auto simp: cloud_speak_def dest: playAudioFile_sound split: fetch_result.splits if_splits)

lemma native_speak_sound:
  "native_speak env k text = (r, sounds) \<Longrightarrow> (r = Inr ()) = (sounds \<noteq> [])"
  by (auto simp: native_speak_def split: proc_result.splits if_splits)

text \<open>
  C6 holds for Native, OpenAI, UnrealSpeech and DeepSeek and fails for ElevenLabs.
  The four resolve only when their audio was played to the end, so each of their
  failures rejects. ElevenLabs awaits the end of \<open>afplay\<close> and never looks at its exit
  code: when the audio was fetched and written and the player ends with a code other
  than 0, nothing was played, no fallback is tried, and the promise resolves. On the
  same platform and with the same answers OpenAI rejects with the exit code.
\<close>

theorem elevenlabs_resolves_after_failed_playback:
  assumes "ok (fetched env)" and "write_ok env"
    and "player env ''afplay'' = Exited exitCode" and "exitCode \<noteq> 0"
  shows "speak ElevenLabs env text = (Inr (), [])
       \<and> (os env = ''darwin'' \<longrightarrow>
            speak OpenAI env text = (Inl (PlayerExited ''afplay'' exitCode), []))
       \<and> (b \<noteq> ElevenLabs \<longrightarrow>
            (fst (speak b env text) = Inr ()) = (snd (speak b env text) \<noteq> []))"
proof (intro conjI impI)
  obtain status body where answer: "fetched env = Response status body"
    using assms(1) by (cases "fetched env") (auto simp: ok_def)
  have fine: "ok (Response status body)"
    using assms(1) answer by simp
  show "speak ElevenLabs env text = (Inr (), [])"
    using assms(2,3,4) answer fine
    by (simp add: elevenlabs_speak_def elevenlabs_try_def)
  show "speak OpenAI env text = (Inl (PlayerExited ''afplay'' exitCode), [])"
    if "os env = ''darwin''"
    using assms(2,3,4) answer fine that
    by (simp add: cloud_speak_def playAudioFile_def checked_player_def)
next
  assume "b \<noteq> ElevenLabs"
  then show "(fst (speak b env text) = Inr ()) = (snd (speak b env text) \<noteq> [])"
    using native_speak_sound [OF surjective_pairing, of env 0 "text"]
      cloud_speak_sound [OF surjective_pairing, of _ env]
    by (cases b) (simp_all add: deepseek_speak_def)
qed

text \<open>macOS, the audio arrives and is written, and every player ends with code 1.\<close>

definition failed_playback :: speak_env where
  "failed_playback =
     \<lparr>os = ''darwin'', fetched = Response 200 [], write_ok = True,
      player = (\<lambda>cmd. Exited 1), say_run = (\<lambda>k. Exited 0), endpoint_configured = True\<rparr>"

theorem elevenlabs_failed_playback_witness:
  "ok (fetched failed_playback) \<and> write_ok failed_playback
   \<and> player failed_playback ''afplay'' = Exited 1 \<and> (1::int) \<noteq> 0
   \<and> os failed_playback = ''darwin''
   \<and> speak ElevenLabs failed_playback ''done'' = (Inr (), [])
   \<and> speak OpenAI failed_playback ''done'' = (Inl (PlayerExited ''afplay'' 1), [])
   \<and> speak UnrealSpeech failed_playback ''done'' = (Inl (PlayerExited ''afplay'' 1), [])"
proof -
  have fetched: "ok (fetched failed_playback)" and written: "write_ok failed_playback"
    and played: "player failed_playback ''afplay'' = Exited 1" and code: "(1::int) \<noteq> 0"
    and mac: "os failed_playback = ''darwin''"
    by (simp_all add: failed_playback_def ok_def)
  have "speak UnrealSpeech failed_playback ''done'' = (Inl (PlayerExited ''afplay'' 1), [])"
    by (simp add: failed_playback_def cloud_speak_def ok_def playAudioFile_def
          checked_player_def)
  with elevenlabs_resolves_after_failed_playback [OF fetched written played code,
      of "''done''" OpenAI] fetched written played mac
  show ?thesis by simp
qed

section \<open>Properties of the announcement queue\<close>

subsection \<open>Process identifiers survive the lock file\<close>

lemma digits_value_snoc: "digits_value (ds @ [d]) = 10 * digits_value ds + (code d - 48)"
  by (simp add: digits_value_def)

lemma code_digit_char: "d < 10 \<Longrightarrow> code (digit_char d) = 48 + d"
  by (simp add: code_def digit_char_def)

lemma is_digit_digit_char: "d < 10 \<Longrightarrow> is_digit (digit_char d)"
  by (simp add: is_digit_def code_digit_char)

lemma decimal_digits: "c \<in> set (decimal n) \<Longrightarrow> is_digit c"
  by (induction n arbitrary: c rule: decimal.induct)
     (subst (asm) decimal.simps, auto simp: is_digit_digit_char split: if_splits)

lemma decimal_nonempty: "decimal n \<noteq> []"
  by (subst decimal.simps) simp

lemma digits_value_decimal: "digits_value (decimal n) = n"
  by (induction n rule: decimal.induct)
     (subst decimal.simps, simp add: digits_value_snoc code_digit_char digits_value_def)

lemma is_digit_not_space: "is_digit c \<Longrightarrow> \<not> is_space c"
  by (auto simp: is_digit_def is_space_def)

lemma dropWhile_none: "\<forall>c \<in> set s. \<not> P c \<Longrightarrow> dropWhile P s = s"
  by (cases s) auto

lemma trim_no_space: "\<forall>c \<in> set s. \<not> is_space c \<Longrightarrow> trim s = s"
  by (simp add: trim_def dropWhile_none)

lemma trim_decimal: "trim (decimal n) = decimal n"
  by (rule trim_no_space) (auto dest: decimal_digits is_digit_not_space)

lemma is_digit_not_sign: "is_digit c \<Longrightarrow> c \<noteq> CHR ''-'' \<and> c \<noteq> CHR ''+''"
  by (auto simp: is_digit_def code_def)

lemma parseInt_digits:
  assumes "ds \<noteq> []" and "\<forall>c \<in> set ds. is_digit c"
  shows "parseInt ds = Some (int (digits_value ds))"
proof -
  obtain c cs where ds: "ds = c # cs" using assms(1) by (cases ds) auto
  with assms(2) have c: "is_digit c" by simp
  then have "\<not> is_space c" "c \<noteq> CHR ''-''" "c \<noteq> CHR ''+''"
    using is_digit_not_space is_digit_not_sign by blast+
  moreover have "takeWhile is_digit (c # cs) = c # cs"
    using assms(2) ds by (simp add: takeWhile_eq_all_conv)
  ultimately show ?thesis
    unfolding parseInt_def ds by (simp add: Let_def)
qed

lemma parseInt_decimal: "parseInt (trim (decimal n)) = Some (int n)"
  by (simp add: trim_decimal parseInt_digits decimal_nonempty decimal_digits digits_value_decimal)


subsection \<open>Sample worlds\<close>

definition held_world :: "tick list \<Rightarrow> world" where
  "held_world ts =
     \<lparr>lock = Some ''4242'', now = 1000, schedule = ts, trace = [], dir_blocked = False\<rparr>"

definition only_4242 :: "int \<Rightarrow> bool" where
  "only_4242 p = (p = 4242)"

lemma parse_4242: "parseInt (trim ''4242'') = Some 4242"
  by code_simp

lemma parse_77: "parseInt (trim ''77'') = Some 77"
  by code_simp



definition sample_config :: config where
  "sample_config = \<lparr>queue_enabled = True, maxWaitMs = 300\<rparr>"

lemma decimal_77: "decimal 77 = ''77''"
  by code_simp

text \<open>The holder keeps the lock past the maximum wait, and nobody acts after that.\<close>

definition overdue :: "tick list" where
  "overdue =
     [\<lparr>elapsed = 301, others = Quiet\<rparr>, \<lparr>elapsed = 0, others = Quiet\<rparr>,
      \<lparr>elapsed = 0, others = Quiet\<rparr>]"

text \<open>The same, and the holder writes its lock again right after the forced unlink.\<close>

definition contended :: "tick list" where
  "contended =
     [\<lparr>elapsed = 301, others = Quiet\<rparr>, \<lparr>elapsed = 0, others = Quiet\<rparr>,
      \<lparr>elapsed = 0, others = Quiet\<rparr>, \<lparr>elapsed = 0, others = Quiet\<rparr>,
      \<lparr>elapsed = 0, others = Leaves (Some ''4242'')\<rparr>]"

subsection \<open>Traces\<close>


lemma spoken_append: "spoken (es @ fs) = spoken es @ spoken fs"
  by (induction es rule: spoken.induct) auto

lemma advance_quiet: "schedule w = [] \<Longrightarrow> advance w = w"
  by (simp add: advance_def)

lemma trace_advance: "trace (advance w) = trace w"
  by (simp add: advance_def split: list.splits)

lemma dir_advance: "dir_blocked (advance w) = dir_blocked w"
  by (simp add: advance_def split: list.splits)

lemma trace_write_pid: "trace (write_pid pid w) = trace w"
  by (simp add: write_pid_def split: list.splits)

lemma dir_write_pid: "dir_blocked (write_pid pid w) = dir_blocked w"
  by (simp add: write_pid_def split: list.splits)

lemma write_pid_quiet: "schedule w = [] \<Longrightarrow> write_pid pid w = w\<lparr>lock := Some (decimal pid)\<rparr>"
  by (simp add: write_pid_def)


lemma spoken_acquireLock: "spoken (trace (snd (acquireLock pid alive w))) = spoken (trace w)"
  by (auto simp: acquireLock_def create_def read_def unlink_def isPidAlive_def
        remove_and_retry_def logged_def Let_def spoken_append trace_advance trace_write_pid
      split: option.splits bool.splits)

lemma dir_acquireLock: "dir_blocked (snd (acquireLock pid alive w)) = dir_blocked w"
  by (auto simp: acquireLock_def create_def read_def unlink_def isPidAlive_def
        remove_and_retry_def logged_def Let_def dir_advance dir_write_pid
      split: option.splits bool.splits)

lemma acquireLock_returns: "\<not> dir_blocked w \<Longrightarrow> fst (acquireLock pid alive w) \<noteq> None"
  by (auto simp: acquireLock_def mkdirSync_def create_def read_def unlink_def isPidAlive_def
        remove_and_retry_def logged_def Let_def
      split: option.splits bool.splits prod.splits)

lemma spoken_releaseLock: "spoken (trace (releaseLock pid w)) = spoken (trace w)"
  by (auto simp: releaseLock_def existsSync_def read_def unlink_def logged_def Let_def
        spoken_append trace_advance
      split: option.splits bool.splits)

lemma spoken_sleep: "spoken (trace (sleep w)) = spoken (trace w)"
  by (simp add: sleep_def logged_def Let_def spoken_append trace_advance)

lemma dir_sleep: "dir_blocked (sleep w) = dir_blocked w"
  by (simp add: sleep_def logged_def Let_def dir_advance)

lemma spoken_force: "spoken (trace (snd (unlink (logged Warn w)))) = spoken (trace w)"
  by (simp add: unlink_def logged_def Let_def spoken_append trace_advance)

lemma dir_force: "dir_blocked (snd (unlink (logged Warn w))) = dir_blocked w"
  by (simp add: unlink_def logged_def Let_def dir_advance)

text \<open>
  In a world where the lock directory can be made the wait loop returns, and nothing
  was spoken in it.
\<close>

lemma wait_for_lock_returns:
  "\<not> dir_blocked w \<Longrightarrow>
     fst (wait_for_lock cfg pid alive startTime w) \<noteq> None
     \<and> spoken (trace (snd (wait_for_lock cfg pid alive startTime w))) = spoken (trace w)"
proof (induction cfg pid alive startTime w rule: wait_for_lock.induct)
  case (1 cfg pid alive startTime w)
  obtain r w1 where a: "acquireLock pid alive w = (r, w1)" by force
  then have w1: "spoken (trace w1) = spoken (trace w)" and d1: "\<not> dir_blocked w1"
    using spoken_acquireLock [of pid alive w] dir_acquireLock [of pid alive w] "1.prems"
    by simp_all
  from a obtain b where r: "r = Some b"
    using acquireLock_returns [OF "1.prems", of pid alive] by auto
  show ?case
  proof (cases b)
    case True
    with a r w1 show ?thesis by (subst (1 2) wait_for_lock.simps) simp
  next
    case False
    show ?thesis
    proof (cases "int (now w1) - int startTime > maxWaitMs cfg")
      case True
      have "\<not> dir_blocked (snd (unlink (logged Warn w1)))"
        using d1 by (simp add: dir_force)
      then have "fst (acquireLock pid alive (snd (unlink (logged Warn w1)))) \<noteq> None"
        by (rule acquireLock_returns)
      with a r \<open>\<not> b\<close> True w1 show ?thesis
        by (subst (1 2) wait_for_lock.simps) (simp add: spoken_acquireLock spoken_force)
    next
      case early: False
      have "\<not> dir_blocked (sleep w1)" using d1 by (simp add: dir_sleep)
      with a r \<open>\<not> b\<close> early
      have "fst (wait_for_lock cfg pid alive startTime (sleep w1)) \<noteq> None
          \<and> spoken (trace (snd (wait_for_lock cfg pid alive startTime (sleep w1))))
              = spoken (trace (sleep w1))"
        using "1.IH" [of r w1 b] by simp
      with a r \<open>\<not> b\<close> early w1 show ?thesis
        by (subst (1 2) wait_for_lock.simps) (simp add: spoken_sleep)
    qed
  qed
qed

lemma spoken_speak_now:
  "spoken (trace (snd (speak_now prov t w))) = spoken (trace w) @ [t]"
  by (simp add: speak_now_def logged_def Let_def spoken_append trace_advance)

lemma fst_speak_now: "fst (speak_now prov t w) = prov t"
  by (simp add: speak_now_def Let_def)

lemma speakWithLock_speaks_once:
  assumes "\<not> dir_blocked w"
  shows "spoken (trace (snd (speakWithLock cfg pid alive hostname prov text w)))
           = spoken (trace w) @ [normalizeTTSText hostname text]"
    and "fst (speakWithLock cfg pid alive hostname prov text w)
           = prov (normalizeTTSText hostname text)"
proof -
  let ?t = "normalizeTTSText hostname text"
  let ?call = "speakWithLock cfg pid alive hostname prov text w"
  have "spoken (trace (snd ?call)) = spoken (trace w) @ [?t] \<and> fst ?call = prov ?t"
  proof (cases "queue_enabled cfg")
    case False
    then have "?call = speak_now prov ?t w" by (simp add: speakWithLock_def Let_def)
    then show ?thesis by (simp only: spoken_speak_now fst_speak_now simp_thms)
  next
    case True
    obtain r w1 where l: "wait_for_lock cfg pid alive (now w) w = (r, w1)" by force
    then obtain b where r: "r = Some b" and w1: "spoken (trace w1) = spoken (trace w)"
      using wait_for_lock_returns [OF assms, of cfg pid alive "now w"] by auto
    show ?thesis
    proof (cases b)
      case False
      with True l r have "?call = speak_now prov ?t w1" by (simp add: speakWithLock_def Let_def)
      then show ?thesis by (simp only: spoken_speak_now fst_speak_now w1 simp_thms)
    next
      case held: True
      with True l r have "?call = (fst (speak_now prov ?t w1),
          releaseLock pid (snd (speak_now prov ?t w1)))"
        by (simp add: speakWithLock_def Let_def split: prod.splits)
      then show ?thesis
        by (simp only: fst_conv snd_conv spoken_releaseLock spoken_speak_now fst_speak_now w1
              simp_thms)
    qed
  qed
  then show "spoken (trace (snd ?call)) = spoken (trace w) @ [?t]" and "fst ?call = prov ?t"
    by simp_all
qed

subsection \<open>Stale and unreadable locks\<close>





subsection \<open>Release\<close>

text \<open>
  C4. Without interference, \<open>releaseLock\<close> deletes the lock file when its content
  names the caller; when the content names anything else, or the file is missing, the
  file is left as it was. \<open>releaseLock\<close> returns a world in every case: a read or
  an unlink that throws ends in its \<open>catch\<close>.
\<close>

theorem release_only_own_lock:
  assumes "schedule w = []"
  shows "(lock w = Some content \<and> parseInt (trim content) = Some (int pid) \<longrightarrow>
            releaseLock pid w =
              w\<lparr>lock := None,
                trace := trace w @ [Exists True, Read (Some content), Unlink True]\<rparr>)
       \<and> (lock w = Some content \<and> parseInt (trim content) \<noteq> Some (int pid) \<longrightarrow>
            releaseLock pid w = w\<lparr>trace := trace w @ [Exists True, Read (Some content)]\<rparr>)
       \<and> (lock w = None \<longrightarrow> releaseLock pid w = w\<lparr>trace := trace w @ [Exists False]\<rparr>)"
  using assms
  by (simp add: releaseLock_def existsSync_def read_def unlink_def logged_def advance_def)

theorem release_only_own_lock_witness:
  "schedule (held_world []) = []
   \<and> lock (held_world []) = Some ''4242'' \<and> parseInt (trim ''4242'') = Some (int 4242)
   \<and> releaseLock 4242 (held_world []) =
       \<lparr>lock = None, now = 1000, schedule = [],
        trace = [Exists True, Read (Some ''4242''), Unlink True], dir_blocked = False\<rparr>
   \<and> parseInt (trim ''4242'') \<noteq> Some (int 77)
   \<and> releaseLock 77 (held_world []) =
       \<lparr>lock = Some ''4242'', now = 1000, schedule = [],
        trace = [Exists True, Read (Some ''4242'')], dir_blocked = False\<rparr>
   \<and> lock \<lparr>lock = None, now = 0, schedule = [], trace = [], dir_blocked = False\<rparr> = None
   \<and> releaseLock 77 \<lparr>lock = None, now = 0, schedule = [], trace = [], dir_blocked = False\<rparr> =
       \<lparr>lock = None, now = 0, schedule = [], trace = [Exists False], dir_blocked = False\<rparr>"
proof -
  have quiet: "schedule (held_world []) = []"
    and quiet': "schedule \<lparr>lock = None, now = 0, schedule = [], trace = [],
        dir_blocked = False\<rparr> = []"
    by (simp_all add: held_world_def)
  show ?thesis
    using release_only_own_lock [OF quiet, of "''4242''" 4242]
      release_only_own_lock [OF quiet, of "''4242''" 77]
      release_only_own_lock [OF quiet', of "''4242''" 77]
      parse_4242
    by (simp add: held_world_def)
qed

subsection \<open>The queue switched off\<close>

text \<open>
  C5. With the queue disabled, \<open>speakWithLock\<close> does one thing, in every world: it
  calls \<open>provider.speak\<close> on the normalized text. Its trace gains that one event,
  so it neither creates, reads nor deletes the lock file.
\<close>

theorem queue_disabled_speaks_directly:
  assumes "\<not> queue_enabled cfg"
  shows "speakWithLock cfg pid alive hostname prov text w =
           (prov (normalizeTTSText hostname text),
            logged (Speak (normalizeTTSText hostname text)) (advance w))"
  using assms by (simp add: speakWithLock_def speak_now_def Let_def)

theorem queue_disabled_witness:
  "\<not> queue_enabled \<lparr>queue_enabled = False, maxWaitMs = 300\<rparr>
   \<and> speakWithLock \<lparr>queue_enabled = False, maxWaitMs = 300\<rparr> 77 only_4242 (\<lambda>url. None)
        (\<lambda>t. None) ''Build  done'' (held_world []) =
       (None, \<lparr>lock = Some ''4242'', now = 1000, schedule = [], trace = [Speak ''Build done''],
               dir_blocked = False\<rparr>)"
proof -
  have off: "\<not> queue_enabled \<lparr>queue_enabled = False, maxWaitMs = 300\<rparr>" by simp
  have norm: "normalizeTTSText (\<lambda>url. None) ''Build  done'' = ''Build done''"
    by code_simp
  show ?thesis
    using queue_disabled_speaks_directly [OF off, of 77 only_4242 "\<lambda>url. None" "\<lambda>t. None"
        "''Build  done''" "held_world []"]
    by (simp add: norm held_world_def logged_def advance_def)
qed

subsection \<open>The escape valve\<close>

text \<open>
  A call that cannot make the lock directory is rejected by \<open>mkdirSync\<close> with nothing
  spoken. This is no matter of contention: where the directory is missing there is no
  lock file and nobody to wait for.
\<close>

lemma blocked_directory_rejects:
  assumes "queue_enabled cfg" and "dir_blocked w" and "lock w = None"
  shows "speakWithLock cfg pid alive hostname prov text w = (Some mkdir_failed, w)"
proof -
  have "acquireLock pid alive w = (None, w)"
    using assms by (simp add: acquireLock_def mkdirSync_def)
  then have "wait_for_lock cfg pid alive (now w) w = (None, w)"
    by (subst wait_for_lock.simps) simp
  with assms(1) show ?thesis by (simp add: speakWithLock_def Let_def)
qed

text \<open>
  C2. With the queue enabled: when an acquire attempt returns without the lock and the
  clock then reads more than \<open>maxWaitMs\<close> past the start of the call, the loop ends
  with the result of one more \<open>acquireLock\<close>, which starts after the warning with the
  lock file deleted, whoever held it; if nobody acts after the timeout, that attempt
  creates the lock file. When the loop ends without the lock, the call is
  \<open>provider.speak\<close> on the normalized text and nothing after it: no release, the
  lock file is left to its holder. In every world where the lock directory can be
  made, whatever the other processes do to the lock file, the call hands the
  normalized text to \<open>provider.speak\<close> exactly once and ends as that \<open>speak\<close> ends.
\<close>

theorem escape_valve_never_drops:
  assumes "queue_enabled cfg"
  shows "(acquireLock pid alive w = (Some False, w1)
            \<and> maxWaitMs cfg < int (now w1) - int startTime \<longrightarrow>
            wait_for_lock cfg pid alive startTime w
              = acquireLock pid alive
                  (logged (Unlink (lock (advance w1) \<noteq> None))
                     ((advance (logged Warn w1))\<lparr>lock := None\<rparr>)))
       \<and> (acquireLock pid alive w = (Some False, w1)
            \<and> maxWaitMs cfg < int (now w1) - int startTime
            \<and> schedule w1 = [] \<and> \<not> dir_blocked w \<longrightarrow>
            wait_for_lock cfg pid alive startTime w
              = (Some True,
                 w1\<lparr>lock := Some (decimal pid),
                    trace := trace w1 @ [Warn, Unlink (lock w1 \<noteq> None), Create True]\<rparr>))
       \<and> (wait_for_lock cfg pid alive (now w) w = (Some False, w') \<longrightarrow>
            speakWithLock cfg pid alive hostname prov text w
              = (prov (normalizeTTSText hostname text),
                 logged (Speak (normalizeTTSText hostname text)) (advance w')))
       \<and> (\<not> dir_blocked w \<longrightarrow>
            spoken (trace (snd (speakWithLock cfg pid alive hostname prov text w)))
              = spoken (trace w) @ [normalizeTTSText hostname text]
            \<and> fst (speakWithLock cfg pid alive hostname prov text w)
              = prov (normalizeTTSText hostname text))"
proof (intro conjI impI)
  assume a: "acquireLock pid alive w = (Some False, w1)
      \<and> maxWaitMs cfg < int (now w1) - int startTime"
  then show "wait_for_lock cfg pid alive startTime w
              = acquireLock pid alive
                  (logged (Unlink (lock (advance w1) \<noteq> None))
                     ((advance (logged Warn w1))\<lparr>lock := None\<rparr>))"
    by (subst wait_for_lock.simps)
       (simp add: unlink_def Let_def logged_def advance_def
          split: list.splits interference.splits)
next
  assume a: "acquireLock pid alive w = (Some False, w1)
      \<and> maxWaitMs cfg < int (now w1) - int startTime
      \<and> schedule w1 = [] \<and> \<not> dir_blocked w"
  then have "dir_blocked w1 = dir_blocked w"
    using dir_acquireLock [of pid alive w] by simp
  with a have "\<not> dir_blocked w1" and "schedule w1 = []" by simp_all
  then have "acquireLock pid alive (snd (unlink (logged Warn w1)))
      = (Some True,
         w1\<lparr>lock := Some (decimal pid),
            trace := trace w1 @ [Warn, Unlink (lock w1 \<noteq> None), Create True]\<rparr>)"
    by (simp add: acquireLock_def mkdirSync_def create_def write_pid_def unlink_def Let_def
          logged_def advance_def)
  with a show "wait_for_lock cfg pid alive startTime w
              = (Some True,
                 w1\<lparr>lock := Some (decimal pid),
                    trace := trace w1 @ [Warn, Unlink (lock w1 \<noteq> None), Create True]\<rparr>)"
    by (subst wait_for_lock.simps) simp
next
  assume "wait_for_lock cfg pid alive (now w) w = (Some False, w')"
  with assms(1) show "speakWithLock cfg pid alive hostname prov text w
              = (prov (normalizeTTSText hostname text),
                 logged (Speak (normalizeTTSText hostname text)) (advance w'))"
    by (simp add: speakWithLock_def speak_now_def Let_def)
next
  assume "\<not> dir_blocked w"
  then show "spoken (trace (snd (speakWithLock cfg pid alive hostname prov text w)))
            = spoken (trace w) @ [normalizeTTSText hostname text]"
    by (rule speakWithLock_speaks_once)
next
  assume "\<not> dir_blocked w"
  then show "fst (speakWithLock cfg pid alive hostname prov text w)
            = prov (normalizeTTSText hostname text)"
    by (rule speakWithLock_speaks_once)
qed

theorem escape_valve_witness:
  "queue_enabled sample_config
   \<and> \<not> dir_blocked (held_world overdue) \<and> \<not> dir_blocked (held_world contended)
   \<and> acquireLock 77 only_4242 (held_world overdue) =
       (Some False, \<lparr>lock = Some ''4242'', now = 1301, schedule = [],
                trace = [Create False, Read (Some ''4242''), Probe 4242 True],
                dir_blocked = False\<rparr>)
   \<and> maxWaitMs sample_config < int 1301 - int 1000
   \<and> wait_for_lock sample_config 77 only_4242 1000 (held_world overdue) =
       (Some True, \<lparr>lock = Some ''77'', now = 1301, schedule = [],
                trace = [Create False, Read (Some ''4242''), Probe 4242 True, Warn, Unlink True,
                         Create True], dir_blocked = False\<rparr>)
   \<and> speakWithLock sample_config 77 only_4242 (\<lambda>url. None) (\<lambda>t. None) ''Build  done''
        (held_world overdue) =
       (None, \<lparr>lock = None, now = 1301, schedule = [],
               trace = [Create False, Read (Some ''4242''), Probe 4242 True, Warn, Unlink True,
                        Create True, Speak ''Build done'', Exists True, Read (Some ''77''),
                        Unlink True], dir_blocked = False\<rparr>)
   \<and> acquireLock 77 only_4242 (held_world contended) =
       (Some False, \<lparr>lock = Some ''4242'', now = 1301, schedule = drop 3 contended,
                trace = [Create False, Read (Some ''4242''), Probe 4242 True],
                dir_blocked = False\<rparr>)
   \<and> wait_for_lock sample_config 77 only_4242 1000 (held_world contended) =
       (Some False, \<lparr>lock = Some ''4242'', now = 1301, schedule = [],
                trace = [Create False, Read (Some ''4242''), Probe 4242 True, Warn, Unlink True,
                         Create False, Read (Some ''4242''), Probe 4242 True],
                dir_blocked = False\<rparr>)
   \<and> speakWithLock sample_config 77 only_4242 (\<lambda>url. None) (\<lambda>t. None) ''Build  done''
        (held_world contended) =
       (None, \<lparr>lock = Some ''4242'', now = 1301, schedule = [],
               trace = [Create False, Read (Some ''4242''), Probe 4242 True, Warn, Unlink True,
                        Create False, Read (Some ''4242''), Probe 4242 True,
                        Speak ''Build done''], dir_blocked = False\<rparr>)"
proof -
  have on: "queue_enabled sample_config" by (simp add: sample_config_def)
  have dir: "\<not> dir_blocked (held_world overdue)" "\<not> dir_blocked (held_world contended)"
    by (simp_all add: held_world_def)
  have norm: "normalizeTTSText (\<lambda>url. None) ''Build  done'' = ''Build done''"
    by code_simp
  have late: "maxWaitMs sample_config < int 1301 - int 1000"
    by (simp add: sample_config_def)
  have start: "now (held_world overdue) = 1000" "now (held_world contended) = 1000"
    by (simp_all add: held_world_def)
  let ?w1 = "\<lparr>lock = Some ''4242'', now = 1301, schedule = [],
                trace = [Create False, Read (Some ''4242''), Probe 4242 True],
                dir_blocked = False\<rparr>"
  have first: "acquireLock 77 only_4242 (held_world overdue) = (Some False, ?w1)"
    by (simp add: acquireLock_def mkdirSync_def create_def read_def isPidAlive_def logged_def
          advance_def held_world_def overdue_def parse_4242 only_4242_def)
  have late1: "maxWaitMs sample_config < int (now ?w1) - int 1000" and quiet1: "schedule ?w1 = []"
    by (simp_all add: sample_config_def)
  note valve = escape_valve_never_drops [where cfg = sample_config and w = "held_world overdue"
      and pid = 77 and alive = only_4242 and startTime = 1000 and ?w1.0 = ?w1, OF on]
  from valve first late1 quiet1 dir(1)
  have "wait_for_lock sample_config 77 only_4242 1000 (held_world overdue)
      = (Some True, ?w1\<lparr>lock := Some (decimal 77),
           trace := trace ?w1 @ [Warn, Unlink (lock ?w1 \<noteq> None), Create True]\<rparr>)"
    by blast
  then have forced: "wait_for_lock sample_config 77 only_4242 1000 (held_world overdue) =
       (Some True, \<lparr>lock = Some ''77'', now = 1301, schedule = [],
                trace = [Create False, Read (Some ''4242''), Probe 4242 True, Warn, Unlink True,
                         Create True], dir_blocked = False\<rparr>)"
    by (simp add: decimal_77)
  have spoke: "speakWithLock sample_config 77 only_4242 (\<lambda>url. None) (\<lambda>t. None) ''Build  done''
        (held_world overdue) =
       (None, \<lparr>lock = None, now = 1301, schedule = [],
               trace = [Create False, Read (Some ''4242''), Probe 4242 True, Warn, Unlink True,
                        Create True, Speak ''Build done'', Exists True, Read (Some ''77''),
                        Unlink True], dir_blocked = False\<rparr>)"
    using forced on
    by (simp add: speakWithLock_def Let_def start norm speak_now_def releaseLock_def
          existsSync_def read_def unlink_def logged_def advance_def parse_77)
  let ?w2 = "\<lparr>lock = Some ''4242'', now = 1301, schedule = drop 3 contended,
                trace = [Create False, Read (Some ''4242''), Probe 4242 True],
                dir_blocked = False\<rparr>"
  let ?w3 = "\<lparr>lock = Some ''4242'', now = 1301, schedule = [],
                trace = [Create False, Read (Some ''4242''), Probe 4242 True, Warn, Unlink True,
                         Create False, Read (Some ''4242''), Probe 4242 True],
                dir_blocked = False\<rparr>"
  have first': "acquireLock 77 only_4242 (held_world contended) = (Some False, ?w2)"
    by (simp add: acquireLock_def mkdirSync_def create_def read_def isPidAlive_def logged_def
          advance_def held_world_def contended_def parse_4242 only_4242_def)
  have late2: "maxWaitMs sample_config < int (now ?w2) - int 1000"
    by (simp add: sample_config_def)
  have final: "acquireLock 77 only_4242
        (logged (Unlink (lock (advance ?w2) \<noteq> None)) ((advance (logged Warn ?w2))\<lparr>lock := None\<rparr>))
      = (Some False, ?w3)"
    by (simp add: acquireLock_def mkdirSync_def create_def read_def isPidAlive_def logged_def
          advance_def contended_def parse_4242 only_4242_def)
  note valve' = escape_valve_never_drops [where cfg = sample_config
      and w = "held_world contended" and pid = 77 and alive = only_4242 and startTime = 1000
      and ?w1.0 = ?w2 and w' = ?w3 and hostname = "\<lambda>url. None" and prov = "\<lambda>t. None"
      and ?text = "''Build  done''", OF on]
  from valve' first' late2
  have "wait_for_lock sample_config 77 only_4242 1000 (held_world contended)
      = acquireLock 77 only_4242
        (logged (Unlink (lock (advance ?w2) \<noteq> None)) ((advance (logged Warn ?w2))\<lparr>lock := None\<rparr>))"
    by blast
  from this final
  have waited: "wait_for_lock sample_config 77 only_4242 1000 (held_world contended)
      = (Some False, ?w3)"
    by (rule trans)
  then have "wait_for_lock sample_config 77 only_4242 (now (held_world contended))
      (held_world contended) = (Some False, ?w3)"
    by (simp only: start)
  with valve'
  have "speakWithLock sample_config 77 only_4242 (\<lambda>url. None) (\<lambda>t. None) ''Build  done''
        (held_world contended)
      = (None, logged (Speak (normalizeTTSText (\<lambda>url. None) ''Build  done'')) (advance ?w3))"
    by blast
  then have direct: "speakWithLock sample_config 77 only_4242 (\<lambda>url. None) (\<lambda>t. None)
        ''Build  done'' (held_world contended) =
       (None, \<lparr>lock = Some ''4242'', now = 1301, schedule = [],
               trace = [Create False, Read (Some ''4242''), Probe 4242 True, Warn, Unlink True,
                        Create False, Read (Some ''4242''), Probe 4242 True,
                        Speak ''Build done''], dir_blocked = False\<rparr>)"
    by (simp add: norm logged_def advance_def)
  show ?thesis
    using on dir first late forced spoke first' waited direct by (intro conjI)
qed

section \<open>Properties of interleaved calls\<close>

text \<open>
  What holds as long as every process is alive and no remark is made: every process is
  at a point of the polling phase, a process that is writing its pid created the lock
  file that is there, and a process that holds the lock is named in it.
\<close>

fun calm :: "point \<Rightarrow> bool" where
  "calm Idle = True"
| "calm (MakeDir Polling) = True"
| "calm (TryCreate Polling) = True"
| "calm Writing = True"
| "calm (TryRead Polling) = True"
| "calm (Probing Polling h) = True"
| "calm (Failed Polling) = True"
| "calm Speaking = True"
| "calm RelExists = True"
| "calm RelRead = True"
| "calm RelUnlink = True"
| "calm Threw = True"
| "calm Done = True"
| "calm pt = False"

definition orderly :: "system \<Rightarrow> bool" where
  "orderly s =
     ((\<forall>p. at s p = Writing \<longrightarrow> (\<exists>content. lockfile s = Some (p, content)))
      \<and> (\<forall>p. holding (at s p) \<longrightarrow> lockfile s = Some (p, decimal p))
      \<and> (\<forall>p. calm (at s p)))"

lemma orderly_step:
  assumes "orderly s" and "\<forall>h. alive h" and "proc_step alive expired p s = (s', Plain)"
  shows "orderly s'"
proof -
  from assms(1) have "calm (at s p)"
    and "at s p = Writing \<longrightarrow> (\<exists>content. lockfile s = Some (p, content))"
    and "holding (at s p) \<longrightarrow> lockfile s = Some (p, decimal p)"
    by (simp_all add: orderly_def)
  with assms show ?thesis
    by (cases "at s p" rule: calm.cases;
        (auto simp: orderly_def proc_step_def move_def write_lock_def parseInt_decimal
          split: option.splits if_splits prod.splits)?; blast)
qed

lemma orderly_run:
  assumes "\<forall>h. alive h"
  shows "orderly s \<Longrightarrow> run alive sched s = (s', rs) \<Longrightarrow> ReadMissing \<notin> set rs
         \<Longrightarrow> ReadUnparsable \<notin> set rs \<Longrightarrow> TimedOut \<notin> set rs \<Longrightarrow> orderly s'"
proof (induction sched arbitrary: s rs)
  case Nil
  then show ?case by simp
next
  case (Cons a sched)
  obtain p expired where a: "a = (p, expired)" by force
  obtain s1 r where st: "proc_step alive expired p s = (s1, r)" by force
  obtain s2 rs2 where rest: "run alive sched s1 = (s2, rs2)" by force
  from Cons.prems(2) a st rest have eq: "s' = s2" "rs = r # rs2" by auto
  with Cons.prems(3,4,5) have plain: "r = Plain"
    and quiet: "ReadMissing \<notin> set rs2" "ReadUnparsable \<notin> set rs2" "TimedOut \<notin> set rs2"
    by (cases r; simp)+
  from orderly_step [OF Cons.prems(1) assms] st plain have "orderly s1" by simp
  moreover from rest eq have "run alive sched s1 = (s', rs2)" by simp
  ultimately show ?case using quiet by (rule Cons.IH)
qed

lemma orderly_started: "orderly (started\<lparr>blocked := b\<rparr>)"
  by (simp add: orderly_def started_def)

text \<open>Sample schedules of processes 1, 2 and 3, all of them alive.\<close>

definition everyone :: "int \<Rightarrow> bool" where
  "everyone h = True"

definition valve_schedule :: "(nat \<times> bool) list" where
  "valve_schedule =
     [(1, False), (1, False), (1, False), (1, False),
      (2, False), (2, False), (2, False), (2, False), (2, False), (2, True),
      (2, False), (2, False), (2, False), (2, False)]"

definition vanish_schedule :: "(nat \<times> bool) list" where
  "vanish_schedule =
     [(1, False), (1, False), (1, False), (1, False),
      (2, False), (2, False), (2, False),
      (1, False), (1, False), (1, False), (1, False),
      (2, False),
      (3, False), (3, False), (3, False), (3, False),
      (2, False), (2, False), (2, False), (2, False), (2, False)]"

definition empty_schedule :: "(nat \<times> bool) list" where
  "empty_schedule =
     [(1, False), (1, False), (1, False),
      (2, False), (2, False), (2, False), (2, False), (2, False), (2, False), (2, False),
      (1, False)]"

definition sample_schedule :: "(nat \<times> bool) list" where
  "sample_schedule =
     [(1, False), (2, False), (1, False), (1, False), (1, False),
      (2, False), (2, False), (2, False), (2, False), (2, False),
      (1, False), (1, False), (1, False), (1, False),
      (2, False), (2, False), (2, False)]"

lemma decimal_123: "decimal 1 = ''1''" "decimal 2 = ''2''" "decimal 3 = ''3''"
  "decimal (Suc 0) = ''1''"
  by code_simp+

lemma parse_123: "parseInt (trim ''1'') = Some 1" "parseInt (trim ''2'') = Some 2"
  "parseInt (trim ''3'') = Some 3" "parseInt (trim []) = None"
  by code_simp+

text \<open>
  C1, as stated, fails. All processes are alive and no lock is ever stale, and two
  processes speak at once: when the wait of process 2 runs out while process 1 speaks
  (the escape valve); with no timeout at all, when process 2 finds the file gone
  after process 1 released it and then removes the lock process 3 has just created;
  and when process 2 reads the lock file that process 1 has created and not yet
  written, takes the empty content for a stale lock and replaces the file.
\<close>

theorem two_holders_after_timing_races:
  "run everyone valve_schedule started
     = (\<lparr>lockfile = Some (2, ''2''), at = (\<lambda>p. Idle)(1 := Speaking, 2 := Speaking),
         blocked = False\<rparr>,
        [Plain, Plain, Plain, Plain, Plain, Plain, Plain, Plain, Plain, TimedOut, Plain, Plain,
         Plain, Plain])
   \<and> run everyone vanish_schedule started
     = (\<lparr>lockfile = Some (2, ''2''), at = (\<lambda>p. Idle)(1 := Done, 2 := Speaking, 3 := Speaking),
         blocked = False\<rparr>,
        [Plain, Plain, Plain, Plain, Plain, Plain, Plain, Plain, Plain, Plain, Plain,
         ReadMissing, Plain, Plain, Plain, Plain, Plain, Plain, Plain, Plain, Plain])
   \<and> run everyone empty_schedule started
     = (\<lparr>lockfile = Some (2, ''2''), at = (\<lambda>p. Idle)(1 := Speaking, 2 := Speaking),
         blocked = False\<rparr>,
        [Plain, Plain, Plain, Plain, Plain, Plain, ReadUnparsable, Plain, Plain, Plain, Plain])"
proof (intro conjI)
  show "run everyone valve_schedule started
     = (\<lparr>lockfile = Some (2, ''2''), at = (\<lambda>p. Idle)(1 := Speaking, 2 := Speaking),
         blocked = False\<rparr>,
        [Plain, Plain, Plain, Plain, Plain, Plain, Plain, Plain, Plain, TimedOut, Plain, Plain,
         Plain, Plain])"
    by (simp add: valve_schedule_def started_def everyone_def proc_step_def move_def
          write_lock_def decimal_123 parse_123 fun_upd_twist)
  show "run everyone vanish_schedule started
     = (\<lparr>lockfile = Some (2, ''2''), at = (\<lambda>p. Idle)(1 := Done, 2 := Speaking, 3 := Speaking),
         blocked = False\<rparr>,
        [Plain, Plain, Plain, Plain, Plain, Plain, Plain, Plain, Plain, Plain, Plain,
         ReadMissing, Plain, Plain, Plain, Plain, Plain, Plain, Plain, Plain, Plain])"
    by (simp add: vanish_schedule_def started_def everyone_def proc_step_def move_def
          write_lock_def decimal_123 parse_123 fun_upd_twist)
  show "run everyone empty_schedule started
     = (\<lparr>lockfile = Some (2, ''2''), at = (\<lambda>p. Idle)(1 := Speaking, 2 := Speaking),
         blocked = False\<rparr>,
        [Plain, Plain, Plain, Plain, Plain, Plain, ReadUnparsable, Plain, Plain, Plain, Plain])"
    by (simp add: empty_schedule_def started_def everyone_def proc_step_def move_def
          write_lock_def decimal_123 parse_123 fun_upd_twist)
qed

text \<open>
  C1, amended. Processes that are all alive start \<open>speakWithLock\<close> with the queue enabled
  and no lock file. In every interleaving of their operations in which no wait runs
  past \<open>maxWaitMs\<close>, no read finds the lock file gone and no read finds it without a
  number in it, at most one process is between the return of its successful \<open>wx\<close>
  write and the end of its \<open>releaseLock\<close>.
\<close>

theorem one_holder_without_timing_races:
  assumes "\<forall>h. alive h"
    and "run alive sched (started\<lparr>blocked := b\<rparr>) = (s, remarks)"
    and "ReadMissing \<notin> set remarks" and "ReadUnparsable \<notin> set remarks"
    and "TimedOut \<notin> set remarks"
  shows "\<forall>p q. holding (at s p) \<and> holding (at s q) \<longrightarrow> p = q"
proof -
  have "orderly s"
    using orderly_run [OF assms(1) orderly_started assms(2,3,4,5)] .
  then have named: "holding (at s p) \<Longrightarrow> lockfile s = Some (p, decimal p)" for p
    by (simp add: orderly_def)
  show ?thesis
  proof (intro allI impI)
    fix p q
    assume "holding (at s p) \<and> holding (at s q)"
    then have "Some (p, decimal p) = Some (q, decimal q)"
      using named [of p] named [of q] by simp
    then show "p = q" by simp
  qed
qed

theorem one_holder_witness:
  "(\<forall>h. everyone h)
   \<and> run everyone sample_schedule (started\<lparr>blocked := False\<rparr>)
       = (\<lparr>lockfile = Some (2, ''2''), at = (\<lambda>p. Idle)(1 := Done, 2 := Speaking),
           blocked = False\<rparr>,
          [Plain, Plain, Plain, Plain, Plain, Plain, Plain, Plain, Plain, Plain, Plain, Plain,
           Plain, Plain, Plain, Plain, Plain])
   \<and> holding (at (fst (run everyone sample_schedule (started\<lparr>blocked := False\<rparr>))) 2)
   \<and> \<not> holding (at (fst (run everyone sample_schedule (started\<lparr>blocked := False\<rparr>))) 1)"
proof -
  let ?rs = "[Plain, Plain, Plain, Plain, Plain, Plain, Plain, Plain, Plain, Plain, Plain,
      Plain, Plain, Plain, Plain, Plain, Plain]"
  have live: "\<forall>h. everyone h"
    by (simp add: everyone_def)
  have ran: "run everyone sample_schedule (started\<lparr>blocked := False\<rparr>)
       = (\<lparr>lockfile = Some (2, ''2''), at = (\<lambda>p. Idle)(1 := Done, 2 := Speaking),
           blocked = False\<rparr>, ?rs)"
    by (simp add: sample_schedule_def started_def everyone_def proc_step_def move_def
          write_lock_def decimal_123 parse_123 fun_upd_twist)
  have "ReadMissing \<notin> set ?rs" and "ReadUnparsable \<notin> set ?rs" and "TimedOut \<notin> set ?rs"
    by simp_all
  from one_holder_without_timing_races [OF live ran this] live ran show ?thesis
    by auto
qed

section \<open>Properties of the text normalizer\<close>

subsection \<open>Texts with few slashes\<close>

text \<open>
  The URL pattern needs \<open>//\<close>, the absolute-path pattern three slashes and the
  relative-path pattern two: a text with at most one slash passes the first three
  replacements unchanged.
\<close>

definition slashes :: "string \<Rightarrow> nat" where
  "slashes s = length (filter (\<lambda>c. c = CHR ''/'') s)"

lemma slashes_append: "slashes (u @ v) = slashes u + slashes v"
  by (simp add: slashes_def)

lemma slashes_Cons: "slashes (c # s) = (if c = CHR ''/'' then Suc (slashes s) else slashes s)"
  by (simp add: slashes_def)

lemma slashes_Nil: "slashes [] = 0"
  by (simp add: slashes_def)

lemma replace_all_none:
  "(\<And>u v p. s = u @ v \<Longrightarrow> m p v = None) \<Longrightarrow> replace_all m f prev s = s"
proof (induction s arbitrary: prev)
  case Nil
  show ?case by simp
next
  case (Cons c cs)
  have here: "m prev (c # cs) = None"
    using Cons.prems [of "[]" "c # cs"] by simp
  have "replace_all m f (Some c) cs = cs"
  proof (rule Cons.IH)
    fix u v p
    assume "cs = u @ v"
    then show "m p v = None" using Cons.prems [of "c # u" v] by simp
  qed
  with here show ?case by simp
qed

lemma starts_with_split: "starts_with p s \<Longrightarrow> s = p @ drop (length p) s"
  by (metis append_take_drop_id starts_with_def)

lemma starts_with_slashes: "starts_with p v \<Longrightarrow> slashes p \<le> slashes v"
  using starts_with_split [of p v] slashes_append [of p "drop (length p) v"] by simp

lemma match_url_slashes: "slashes v \<le> 1 \<Longrightarrow> match_url p v = None"
proof (rule ccontr)
  assume few: "slashes v \<le> 1" and "match_url p v \<noteq> None"
  then have "starts_with ''https://'' v \<or> starts_with ''http://'' v"
    by (auto simp: match_url_def Let_def split: if_splits)
  then have "2 \<le> slashes v"
    by (auto dest!: starts_with_slashes simp: slashes_def)
  with few show False by simp
qed

lemma segments_at_slashes: "length (segments_at C s) \<le> Suc (slashes s)"
proof (induction C s rule: segments_at.induct)
  case (1 C s)
  show ?case
  proof (cases "dropWhile C s")
    case Nil
    then show ?thesis
      by (subst segments_at.simps) (simp del: dropWhile_eq_Nil_conv)
  next
    case (Cons d rest)
    have s: "s = takeWhile C s @ d # rest"
      using Cons by (metis takeWhile_dropWhile_id)
    show ?thesis
    proof (cases "takeWhile C s \<noteq> [] \<and> d = CHR ''/'' \<and> segments_at C rest \<noteq> []")
      case True
      then have "length (segments_at C rest) \<le> Suc (slashes rest)"
        using "1.IH" [of d rest] Cons by simp
      moreover have "Suc (slashes rest) \<le> slashes s"
        using True by (subst s) (simp add: slashes_append slashes_Cons)
      ultimately show ?thesis
        using True Cons by (subst segments_at.simps) simp
    next
      case False
      then show ?thesis using Cons by (subst segments_at.simps) auto
    qed
  qed
qed

lemma match_abs_slashes: "slashes v \<le> 2 \<Longrightarrow> match_abs p v = None"
  using segments_at_slashes [of abs_char "tl v"]
  by (cases v) (auto simp: match_abs_def slashes_Cons split: if_splits)

lemma match_rel_slashes: "slashes v \<le> 1 \<Longrightarrow> match_rel p v = None"
  using segments_at_slashes [of rel_char v]
  by (auto simp: match_rel_def)

lemma few_slashes_untouched:
  assumes "slashes s \<le> 1"
  shows "replace_all match_url f prev s = s"
    and "replace_all match_abs g prev s = s"
    and "replace_all match_rel h prev s = s"
proof -
  have suffix: "slashes v \<le> 1" if "s = u @ v" for u v
    using assms that by (simp add: slashes_append)
  show "replace_all match_url f prev s = s"
    by (rule replace_all_none) (rule match_url_slashes, erule suffix)
  show "replace_all match_abs g prev s = s"
    by (rule replace_all_none) (rule match_abs_slashes, drule suffix, simp)
  show "replace_all match_rel h prev s = s"
    by (rule replace_all_none) (rule match_rel_slashes, erule suffix)
qed

subsection \<open>Words and the characters between them\<close>

text \<open>
  \<open>\b\<close> and \<open>[a-zA-Z0-9]\<close> only separate word characters from the others, so the
  hexadecimal and the dotted-identifier replacement are read off the text cut into its
  maximal runs of word characters (\<open>W\<close>) and its other characters (\<open>N\<close>).
\<close>

datatype token = W string | N char

fun tok :: "string \<Rightarrow> token list" where
  "tok [] = []"
| "tok (c # cs) =
     (if is_word c
      then (case tok cs of W w # ts \<Rightarrow> W (c # w) # ts | ts \<Rightarrow> W [c] # ts)
      else N c # tok cs)"

fun untok :: "token list \<Rightarrow> string" where
  "untok [] = []"
| "untok (W w # ts) = w @ untok ts"
| "untok (N c # ts) = c # untok ts"

fun normal :: "token list \<Rightarrow> bool" where
  "normal [] = True"
| "normal (N c # ts) = (\<not> is_word c \<and> normal ts)"
| "normal (W w # ts) =
     (w \<noteq> [] \<and> (\<forall>c \<in> set w. is_word c) \<and> (case ts of W v # us \<Rightarrow> False | _ \<Rightarrow> True)
      \<and> normal ts)"

lemma untok_tok: "untok (tok s) = s"
  by (induction s) (auto split: list.splits token.splits)

lemma untok_append: "untok (ts @ us) = untok ts @ untok us"
  by (induction ts rule: untok.induct) auto

lemma normal_tok: "normal (tok s)"
  by (induction s) (auto split: list.splits token.splits)

lemma tok_word_run:
  "w \<noteq> [] \<Longrightarrow> \<forall>c \<in> set w. is_word c \<Longrightarrow> (case s of [] \<Rightarrow> True | c # cs \<Rightarrow> \<not> is_word c)
   \<Longrightarrow> tok (w @ s) = W w # tok s"
proof (induction w)
  case Nil
  then show ?case by simp
next
  case (Cons a w)
  show ?case
  proof (cases w)
    case Nil
    with Cons.prems show ?thesis by (cases s) auto
  next
    case (Cons b v)
    with Cons.IH Cons.prems have "tok (w @ s) = W w # tok s" by simp
    with Cons.prems show ?thesis by simp
  qed
qed

lemma tok_untok: "normal ts \<Longrightarrow> tok (untok ts) = ts"
proof (induction ts rule: normal.induct)
  case 1
  show ?case by simp
next
  case (2 c ts)
  then show ?case by simp
next
  case (3 w ts)
  then have IH: "tok (untok ts) = ts" by simp
  have "case untok ts of [] \<Rightarrow> True | c # cs \<Rightarrow> \<not> is_word c"
    using "3.prems" by (cases ts rule: untok.cases) auto
  with "3.prems" have "tok (w @ untok ts) = W w # tok (untok ts)"
    by (intro tok_word_run) auto
  with IH show ?case by simp
qed

lemma tok_inj: "tok s = tok t \<Longrightarrow> s = t"
  by (metis untok_tok)

subsection \<open>Hexadecimal runs on tokens\<close>

definition hexable :: "string \<Rightarrow> bool" where
  "hexable w = (8 \<le> length w \<and> (\<forall>c \<in> set w. is_hex c)
      \<and> (\<exists>c \<in> set w. is_digit c) \<and> (\<exists>c \<in> set w. is_hex_letter c))"

fun hexT :: "token list \<Rightarrow> token list" where
  "hexT [] = []"
| "hexT (W w # ts) =
     (if hexable w then W ''hash'' # N CHR '' '' # W (take 6 w) # hexT ts else W w # hexT ts)"
| "hexT (N c # ts) = N c # hexT ts"

definition words :: "token list \<Rightarrow> string set" where
  "words ts = {w. W w \<in> set ts}"

lemma words_simps [simp]:
  "words [] = {}" "words (W w # ts) = insert w (words ts)" "words (N c # ts) = words ts"
  "words (ts @ us) = words ts \<union> words us"
  by (auto simp: words_def)

lemma not_hexable_hash: "\<not> hexable ''hash''"
  by (simp add: hexable_def)

lemma not_hexable_short: "length w < 8 \<Longrightarrow> \<not> hexable w"
  by (simp add: hexable_def)

lemma hexT_words: "w \<in> words (hexT ts) \<Longrightarrow> \<not> hexable w"
  by (induction ts rule: hexT.induct)
     (auto simp: not_hexable_hash not_hexable_short split: if_splits)

lemma hexT_id: "\<forall>w \<in> words ts. \<not> hexable w \<Longrightarrow> hexT ts = ts"
  by (induction ts rule: hexT.induct) auto

lemma is_word_hash: "\<forall>c \<in> set ''hash''. is_word c"
  by (simp add: is_word_def is_alnum_def is_alpha_def code_def)

lemma not_word_space: "\<not> is_word CHR '' ''"
  by (simp add: is_word_def is_alnum_def is_alpha_def is_digit_def code_def)

lemma hexT_head: "(case hexT ts of W v # us \<Rightarrow> False | _ \<Rightarrow> True) = (case ts of W v # us \<Rightarrow> False | _ \<Rightarrow> True)"
  by (cases ts rule: hexT.cases) auto

lemma normal_hexT: "normal ts \<Longrightarrow> normal (hexT ts)"
proof (induction ts rule: hexT.induct)
  case (2 w ts)
  then have "normal (hexT ts)" by (cases "hexable w") simp_all
  moreover have "hexable w \<Longrightarrow> take 6 w \<noteq> []"
    by (auto simp: hexable_def)
  moreover have "\<forall>c \<in> set (take 6 w). is_word c"
    using "2.prems" by (auto dest: in_set_takeD)
  ultimately show ?case
    using "2.prems" hexT_head [of ts] by (auto simp: is_word_hash not_word_space)
qed auto


subsection \<open>Dotted identifiers on tokens\<close>

definition is_ident :: "string \<Rightarrow> bool" where
  "is_ident w = (case w of [] \<Rightarrow> False | c # cs \<Rightarrow> is_alpha c \<and> (\<forall>d \<in> set cs. is_alnum d))"

fun chainT :: "token list \<Rightarrow> string list" where
  "chainT (W w # N d # ts) =
     (if is_ident w then (if d = CHR ''.'' \<and> chainT ts \<noteq> [] then w # chainT ts else [w]) else [])"
| "chainT (W w # ts) = (if is_ident w then [w] else [])"
| "chainT ts = []"

fun chain_tokens :: "string list \<Rightarrow> token list" where
  "chain_tokens [] = []"
| "chain_tokens [w] = [W w]"
| "chain_tokens (w # v # ws) = W w # N CHR ''.'' # chain_tokens (v # ws)"

definition keeps :: "string list \<Rightarrow> bool" where
  "keeps ch = ends_with_extension (join ''.'' ch)"

definition outT :: "string list \<Rightarrow> token list" where
  "outT ch = (if keeps ch then chain_tokens ch else [W (last ch)])"

lemma chain_tokens_length: "ch \<noteq> [] \<Longrightarrow> 0 < length (chain_tokens ch)"
  by (cases ch rule: chain_tokens.cases) auto

lemma chainT_prefix: "take (length (chain_tokens (chainT ts))) ts = chain_tokens (chainT ts)"
proof (induction ts rule: chainT.induct)
  case (1 w d ts)
  then show ?case
    by (cases "chainT ts") auto
qed auto

lemma chainT_split: "ts = chain_tokens (chainT ts) @ drop (length (chain_tokens (chainT ts))) ts"
  by (metis append_take_drop_id chainT_prefix)

function dotT :: "token list \<Rightarrow> token list" where
  "dotT [] = []"
| "dotT (N c # ts) = N c # dotT ts"
| "dotT (W w # ts) =
     (if 4 \<le> length (chainT (W w # ts))
      then outT (chainT (W w # ts))
           @ dotT (drop (length (chain_tokens (chainT (W w # ts)))) (W w # ts))
      else W w # dotT ts)"
  by pat_completeness auto
termination
proof (relation "measure length", goal_cases)
  case 1
  show ?case by simp
next
  case (2 c ts)
  show ?case by simp
next
  case (3 w ts)
  then have "chainT (W w # ts) \<noteq> []" by auto
  from chain_tokens_length [OF this] show ?case by simp
next
  case (4 w ts)
  show ?case by simp
qed

definition continues :: "token list \<Rightarrow> bool" where
  "continues r = (case r of N d # us \<Rightarrow> d = CHR ''.'' \<and> chainT us \<noteq> [] | _ \<Rightarrow> False)"

lemma chainT_idents: "w \<in> set (chainT ts) \<Longrightarrow> is_ident w"
  by (induction ts arbitrary: w rule: chainT.induct) (auto split: if_splits)

lemma chainT_maximal:
  "normal ts \<Longrightarrow> chainT ts \<noteq> []
   \<Longrightarrow> \<not> continues (drop (length (chain_tokens (chainT ts))) ts)"
proof (induction ts rule: chainT.induct)
  case (1 w d ts)
  show ?case
  proof (cases "d = CHR ''.'' \<and> chainT ts \<noteq> []")
    case True
    then obtain v vs where "chainT ts = v # vs" by (cases "chainT ts") auto
    with 1 True show ?thesis by auto
  next
    case False
    with 1 show ?thesis by (auto simp: continues_def split: if_splits)
  qed
qed (auto simp: continues_def split: list.splits token.splits if_splits)

lemma chainT_append:
  "ch \<noteq> [] \<Longrightarrow> \<forall>w \<in> set ch. is_ident w \<Longrightarrow> \<not> continues r
   \<Longrightarrow> (case r of W v # us \<Rightarrow> False | _ \<Rightarrow> True)
   \<Longrightarrow> chainT (chain_tokens ch @ r) = ch"
proof (induction ch rule: chain_tokens.induct)
  case 1
  then show ?case by simp
next
  case (2 w)
  then show ?case
    by (cases r rule: chainT.cases) (auto simp: continues_def split: list.splits token.splits)
next
  case (3 w v ws)
  then show ?case by simp
qed


lemma normal_tl: "normal (t # ts) \<Longrightarrow> normal ts"
  by (cases t) auto

lemma normal_drop: "normal ts \<Longrightarrow> normal (drop n ts)"
proof (induction n arbitrary: ts)
  case 0
  then show ?case by simp
next
  case (Suc n)
  then show ?case by (cases ts) (auto dest: normal_tl)
qed

definition no_word_first :: "token list \<Rightarrow> bool" where
  "no_word_first r = (case r of W v # us \<Rightarrow> False | _ \<Rightarrow> True)"

lemma chainT_rest_head:
  "normal ts \<Longrightarrow> chainT ts \<noteq> []
   \<Longrightarrow> no_word_first (drop (length (chain_tokens (chainT ts))) ts)"
proof (induction ts rule: chainT.induct)
  case (1 w d ts)
  show ?case
  proof (cases "d = CHR ''.'' \<and> chainT ts \<noteq> []")
    case True
    then obtain v vs where "chainT ts = v # vs" by (cases "chainT ts") auto
    with 1 True show ?thesis by auto
  next
    case False
    with 1 show ?thesis by (auto simp: no_word_first_def split: if_splits)
  qed
qed (auto simp: no_word_first_def split: list.splits token.splits if_splits)

definition front :: "string list \<Rightarrow> string list" where
  "front ch = (if 4 \<le> length ch then (if keeps ch then ch else [last ch]) else ch)"

lemma front_Nil_iff: "front ch = [] \<longleftrightarrow> ch = []"
  by (auto simp: front_def)

lemma chain_tokens_first: "ch \<noteq> [] \<Longrightarrow> \<exists>ts. chain_tokens ch = W (hd ch) # ts"
  by (cases ch rule: chain_tokens.cases) auto

lemma outT_first: "ch \<noteq> [] \<Longrightarrow> \<exists>w ts. outT ch = W w # ts"
  using chain_tokens_first [of ch] by (auto simp: outT_def)

lemma dotT_word_first: "\<exists>v us. dotT (W w # ts) = W v # us"
proof (cases "4 \<le> length (chainT (W w # ts))")
  case True
  then have "chainT (W w # ts) \<noteq> []" by auto
  from outT_first [OF this] True show ?thesis by auto
next
  case False
  then show ?thesis by simp
qed

lemma dotT_no_word_first: "no_word_first r \<Longrightarrow> no_word_first (dotT r)"
  by (cases r rule: dotT.cases) (auto simp: no_word_first_def)

lemma chainT_front:
  "normal ts \<Longrightarrow> chainT (dotT ts) = front (chainT ts)"
proof (induction ts rule: length_induct)
  case (1 ts)
  have IH: "chainT (dotT us) = front (chainT us)" if "length us < length ts" "normal us" for us
    using 1 that by blast
  have cont: "\<not> continues (dotT r)" if "length r \<le> length ts" "normal r" "\<not> continues r" for r
  proof (cases r rule: dotT.cases)
    case 1
    then show ?thesis by (simp add: continues_def)
  next
    case (2 d us)
    with that have "chainT (dotT us) = front (chainT us)"
      by (intro IH) auto
    with 2 that(3) show ?thesis
      by (auto simp: continues_def front_Nil_iff)
  next
    case (3 w us)
    with dotT_word_first [of w us] show ?thesis
      by (auto simp: continues_def)
  qed
  show ?case
  proof (cases ts rule: dotT.cases)
    case 1
    then show ?thesis by (simp add: front_def)
  next
    case (2 c us)
    then show ?thesis by (simp add: front_def)
  next
    case (3 w us)
    let ?ch = "chainT ts"
    let ?rest = "drop (length (chain_tokens ?ch)) ts"
    show ?thesis
    proof (cases "4 \<le> length ?ch")
      case True
      then have ne: "?ch \<noteq> []" by auto
      have short: "length ?rest \<le> length ts" by simp
      have nrest: "normal ?rest" using "1.prems" by (rule normal_drop)
      have "\<not> continues ?rest" using "1.prems" ne by (rule chainT_maximal)
      with short nrest have c: "\<not> continues (dotT ?rest)" by (intro cont)
      have h: "no_word_first (dotT ?rest)"
        using chainT_rest_head [OF "1.prems" ne] by (rule dotT_no_word_first)
      have ids: "\<forall>w \<in> set ?ch. is_ident w" by (auto dest: chainT_idents)
      have d: "dotT ts = outT ?ch @ dotT ?rest"
        using 3 True by simp
      show ?thesis
      proof (cases "keeps ?ch")
        case True
        have "chainT (chain_tokens ?ch @ dotT ?rest) = ?ch"
          using ne ids c h by (intro chainT_append) (auto simp: no_word_first_def)
        with True \<open>4 \<le> length ?ch\<close> d show ?thesis by (simp add: outT_def front_def)
      next
        case False
        have "chainT (chain_tokens [last ?ch] @ dotT ?rest) = [last ?ch]"
          using ne ids c h by (intro chainT_append) (auto simp: no_word_first_def)
        with False \<open>4 \<le> length ?ch\<close> d show ?thesis by (simp add: outT_def front_def)
      qed
    next
      case False
      then have d: "dotT ts = W w # dotT us" using 3 by simp
      have fr: "front ?ch = ?ch" using False by (simp add: front_def)
      show ?thesis
      proof (cases us rule: dotT.cases)
        case 1
        with d 3 fr show ?thesis by simp
      next
        case (2 c vs)
        have "normal vs" using "1.prems" 3 2 by simp
        then have v: "chainT (dotT vs) = front (chainT vs)"
          using 3 2 by (intro IH) auto
        have "length (chainT vs) < 4 \<or> \<not> (is_ident w \<and> c = CHR ''.'')"
          using False 3 2 by (auto split: if_splits)
        then have "is_ident w \<and> c = CHR ''.'' \<longrightarrow> front (chainT vs) = chainT vs"
          by (auto simp: front_def)
        with v d 3 2 fr show ?thesis by (auto simp: front_Nil_iff)
      next
        case (3 v vs)
        with "1.prems" \<open>ts = W w # us\<close> show ?thesis by simp
      qed
    qed
  qed
qed

lemma dotT_continues: "normal r \<Longrightarrow> \<not> continues r \<Longrightarrow> \<not> continues (dotT r)"
proof (cases r rule: dotT.cases)
  case (2 d us)
  assume "normal r" "\<not> continues r"
  with 2 chainT_front [of us] show ?thesis
    by (auto simp: continues_def front_Nil_iff)
next
  case (3 w us)
  with dotT_word_first [of w us] show ?thesis by (auto simp: continues_def)
qed (simp add: continues_def)

lemma dotT_idem: "normal ts \<Longrightarrow> dotT (dotT ts) = dotT ts"
proof (induction ts rule: length_induct)
  case (1 ts)
  have IH: "dotT (dotT us) = dotT us" if "length us < length ts" "normal us" for us
    using 1 that by blast
  show ?case
  proof (cases ts rule: dotT.cases)
    case 1
    then show ?thesis by simp
  next
    case (2 c us)
    with "1.prems" IH [of us] show ?thesis by simp
  next
    case (3 w us)
    let ?ch = "chainT ts"
    let ?rest = "drop (length (chain_tokens ?ch)) ts"
    have fr: "chainT (dotT ts) = front ?ch"
      using "1.prems" by (rule chainT_front)
    show ?thesis
    proof (cases "4 \<le> length ?ch")
      case True
      then have ne: "?ch \<noteq> []" by auto
      have d: "dotT ts = outT ?ch @ dotT ?rest"
        using 3 True by simp
      have "length ?rest < length ts"
        using chain_tokens_length [OF ne] 3 by simp
      moreover have "normal ?rest" using "1.prems" by (rule normal_drop)
      ultimately have r: "dotT (dotT ?rest) = dotT ?rest" by (rule IH)
      show ?thesis
      proof (cases "keeps ?ch")
        case True
        obtain v vs where f: "chain_tokens ?ch = W v # vs"
          using chain_tokens_first [OF ne] by blast
        have "chainT (W v # vs @ dotT ?rest) = ?ch"
          using fr d True \<open>4 \<le> length ?ch\<close> f by (simp add: outT_def front_def)
        then have "dotT (W v # vs @ dotT ?rest)
            = outT ?ch @ dotT (drop (length (chain_tokens ?ch)) (W v # vs @ dotT ?rest))"
          using \<open>4 \<le> length ?ch\<close> by simp
        also have "drop (length (chain_tokens ?ch)) (W v # vs @ dotT ?rest) = dotT ?rest"
          using f by simp
        finally show ?thesis using d True f r by (simp add: outT_def)
      next
        case False
        have "chainT (W (last ?ch) # dotT ?rest) = [last ?ch]"
          using fr d False \<open>4 \<le> length ?ch\<close> by (simp add: outT_def front_def)
        then have "dotT (W (last ?ch) # dotT ?rest) = W (last ?ch) # dotT (dotT ?rest)"
          by simp
        with d False r show ?thesis by (simp add: outT_def)
      qed
    next
      case False
      then have d: "dotT ts = W w # dotT us" using 3 by simp
      have "chainT (W w # dotT us) = ?ch"
        using fr d False by (simp add: front_def)
      with False have "dotT (W w # dotT us) = W w # dotT (dotT us)" by simp
      moreover have "dotT (dotT us) = dotT us"
        using "1.prems" 3 by (intro IH) (auto dest: normal_tl)
      ultimately show ?thesis using d by simp
    qed
  qed
qed


lemma words_chain_tokens: "words (chain_tokens ch) = set ch"
  by (induction ch rule: chain_tokens.induct) auto

lemma chainT_words: "set (chainT ts) \<subseteq> words ts"
proof -
  have "words (chain_tokens (chainT ts)) \<subseteq> words ts"
    by (subst (2) chainT_split [of ts]) simp
  then show ?thesis by (simp add: words_chain_tokens)
qed

lemma words_outT: "ch \<noteq> [] \<Longrightarrow> words (outT ch) \<subseteq> set ch"
  by (auto simp: outT_def words_chain_tokens)

lemma words_drop: "words (drop n ts) \<subseteq> words ts"
  by (auto simp: words_def dest: in_set_dropD)

lemma words_dotT: "words (dotT ts) \<subseteq> words ts"
proof (induction ts rule: dotT.induct)
  case (3 w ts)
  show ?case
  proof (cases "4 \<le> length (chainT (W w # ts))")
    case True
    then have "chainT (W w # ts) \<noteq> []" by auto
    from words_outT [OF this] chainT_words [of "W w # ts"]
      "3.IH"(1) [OF True] words_drop [of "length (chain_tokens (chainT (W w # ts)))" "W w # ts"]
    show ?thesis using True by auto
  next
    case False
    with "3.IH"(2) show ?thesis by auto
  qed
qed auto

lemma normal_chain_tokens_append:
  "ch \<noteq> [] \<Longrightarrow> \<forall>w \<in> set ch. is_ident w \<Longrightarrow> normal r \<Longrightarrow> no_word_first r
   \<Longrightarrow> normal (chain_tokens ch @ r)"
proof (induction ch rule: chain_tokens.induct)
  case (2 w)
  then show ?case
    by (cases w)
       (auto simp: no_word_first_def is_ident_def is_word_def is_alnum_def
          split: list.splits token.splits)
next
  case (3 w v ws)
  then show ?case
    by (cases w)
       (auto simp: is_ident_def is_word_def is_alnum_def is_alpha_def is_digit_def code_def)
qed simp

lemma normal_dotT: "normal ts \<Longrightarrow> normal (dotT ts)"
proof (induction ts rule: dotT.induct)
  case (3 w ts)
  let ?ch = "chainT (W w # ts)"
  let ?rest = "drop (length (chain_tokens ?ch)) (W w # ts)"
  show ?case
  proof (cases "4 \<le> length ?ch")
    case True
    then have ne: "?ch \<noteq> []" by auto
    have ids: "\<forall>w \<in> set ?ch. is_ident w" by (auto dest: chainT_idents)
    have "normal ?rest" using "3.prems" by (rule normal_drop)
    with "3.IH"(1) True have n: "normal (dotT ?rest)" by simp
    have h: "no_word_first (dotT ?rest)"
      using chainT_rest_head [OF "3.prems" ne] by (rule dotT_no_word_first)
    have "normal (chain_tokens ?ch @ dotT ?rest)"
      using ne ids n h by (rule normal_chain_tokens_append)
    moreover have "normal (chain_tokens [last ?ch] @ dotT ?rest)"
      using ne ids n h by (intro normal_chain_tokens_append) auto
    ultimately show ?thesis using True by (simp add: outT_def)
  next
    case False
    have "normal (dotT ts)" using "3.IH"(2) False "3.prems" by simp
    moreover have "no_word_first (dotT ts)"
      using "3.prems" by (intro dotT_no_word_first) (simp add: no_word_first_def)
    ultimately show ?thesis using False "3.prems" by (simp add: no_word_first_def)
  qed
qed auto

subsection \<open>Spaces on tokens\<close>

fun collT :: "token list \<Rightarrow> token list" where
  "collT (N a # N b # ts) =
     (if a = CHR '' '' \<and> b = CHR '' '' then collT (N b # ts) else N a # collT (N b # ts))"
| "collT (t # ts) = t # collT ts"
| "collT [] = []"

lemma collT_N_first: "\<exists>us. collT (N d # ts) = N d # us"
  by (induction ts arbitrary: d) (auto split: token.splits, metis token.exhaust collT.simps)

definition space_first :: "token list \<Rightarrow> bool" where
  "space_first ts = (case ts of N b # us \<Rightarrow> b = CHR '' '' | _ \<Rightarrow> False)"

lemma collT_N: "\<not> (a = CHR '' '' \<and> space_first ts) \<Longrightarrow> collT (N a # ts) = N a # collT ts"
proof (cases ts)
  case Nil
  then show ?thesis by simp
next
  case (Cons t us)
  assume "\<not> (a = CHR '' '' \<and> space_first ts)"
  with Cons show ?thesis by (cases t) (auto simp: space_first_def)
qed

lemma collT_W: "collT (W w # ts) = W w # collT ts"
  by simp

lemma space_first_dotT: "space_first (dotT ts) = space_first ts"
proof (cases ts rule: dotT.cases)
  case (3 w us)
  with dotT_word_first [of w us] show ?thesis by (auto simp: space_first_def)
qed (simp_all add: space_first_def)

lemma chainT_collT: "chainT (collT ts) = chainT ts"
proof (induction ts rule: chainT.induct, goal_cases)
  case (1 w d ts)
  show ?case
  proof (cases "d = CHR ''.''")
    case True
    then have "collT (N d # ts) = N d # collT ts"
      by (intro collT_N) simp
    with 1 True show ?thesis by simp
  next
    case False
    obtain us where "collT (N d # ts) = N d # us"
      using collT_N_first by blast
    with False show ?thesis by simp
  qed
next
  case (5 d ts)
  obtain us where "collT (N d # ts) = N d # us"
    using collT_N_first by blast
  then show ?case by simp
qed simp_all

lemma collT_chain_tokens:
  "ch \<noteq> [] \<Longrightarrow> collT (chain_tokens ch @ r) = chain_tokens ch @ collT r"
proof (induction ch rule: chain_tokens.induct)
  case (3 w v ws)
  then have "collT (N CHR ''.'' # chain_tokens (v # ws) @ r)
      = N CHR ''.'' # chain_tokens (v # ws) @ collT r"
    by (subst collT_N) simp_all
  then show ?case by simp
qed simp_all

lemma dotT_collT: "normal ts \<Longrightarrow> dotT (collT ts) = collT (dotT ts)"
proof (induction ts rule: length_induct)
  case (1 ts)
  have IH: "dotT (collT us) = collT (dotT us)" if "length us < length ts" "normal us" for us
    using 1 that by blast
  show ?case
  proof (cases ts rule: dotT.cases)
    case 1
    then show ?thesis by simp
  next
    case (2 a us)
    have nus: "normal us" using "1.prems" 2 by simp
    show ?thesis
    proof (cases "a = CHR '' '' \<and> space_first us")
      case True
      then obtain vs where us: "us = N CHR '' '' # vs"
        by (auto simp: space_first_def split: list.splits token.splits)
      have "dotT (collT us) = collT (dotT us)"
        using 2 nus by (intro IH) auto
      with True us 2 show ?thesis by simp
    next
      case False
      then have "collT ts = N a # collT us"
        using 2 by (simp add: collT_N)
      moreover have "collT (N a # dotT us) = N a # collT (dotT us)"
        using False by (intro collT_N) (simp add: space_first_dotT)
      moreover have "dotT (collT us) = collT (dotT us)"
        using 2 nus by (intro IH) auto
      ultimately show ?thesis using 2 by simp
    qed
  next
    case (3 w us)
    let ?ch = "chainT ts"
    let ?rest = "drop (length (chain_tokens ?ch)) ts"
    have c: "chainT (W w # collT us) = ?ch"
      using chainT_collT [of ts] 3 by simp
    show ?thesis
    proof (cases "4 \<le> length ?ch")
      case True
      then have ne: "?ch \<noteq> []" by auto
      have split: "ts = chain_tokens ?ch @ ?rest"
        by (rule chainT_split)
      have "collT ts = chain_tokens ?ch @ collT ?rest"
        by (subst split) (rule collT_chain_tokens [OF ne])
      then have cs: "W w # collT us = chain_tokens ?ch @ collT ?rest"
        using 3 by simp
      have "dotT (W w # collT us)
          = outT ?ch @ dotT (drop (length (chain_tokens ?ch)) (W w # collT us))"
        using c True by simp
      also have "drop (length (chain_tokens ?ch)) (W w # collT us) = collT ?rest"
        by (subst cs) simp
      also have "dotT (collT ?rest) = collT (dotT ?rest)"
        using chain_tokens_length [OF ne] 3 "1.prems"
        by (intro IH) (auto intro: normal_drop)
      finally have left: "dotT (collT ts) = outT ?ch @ collT (dotT ?rest)"
        using 3 by simp
      have "outT ?ch = chain_tokens ?ch \<or> outT ?ch = chain_tokens [last ?ch]"
        by (simp add: outT_def)
      then have "collT (outT ?ch @ dotT ?rest) = outT ?ch @ collT (dotT ?rest)"
        using ne by (auto simp: collT_chain_tokens simp del: chain_tokens.simps)
      moreover have "dotT ts = outT ?ch @ dotT ?rest"
        using 3 True by simp
      ultimately show ?thesis using left by simp
    next
      case False
      have "dotT (collT us) = collT (dotT us)"
        using 3 "1.prems" by (intro IH) (auto dest: normal_tl)
      with False c 3 show ?thesis by simp
    qed
  qed
qed

lemma dotT_Ns: "dotT (map N l @ ts) = map N l @ dotT ts"
  by (induction l) auto

lemma chainT_append_Ns:
  "(case r of [] \<Rightarrow> True | c # cs \<Rightarrow> c \<noteq> CHR ''.'') \<Longrightarrow> chainT (ts @ map N r) = chainT ts"
proof (induction ts rule: chainT.induct, goal_cases)
  case (2 w)
  then show ?case by (cases r) auto
next
  case 4
  then show ?case by (cases r) auto
qed auto

lemma dotT_append_Ns:
  assumes "case r of [] \<Rightarrow> True | c # cs \<Rightarrow> c \<noteq> CHR ''.''"
  shows "dotT (ts @ map N r) = dotT ts @ map N r"
proof (induction ts rule: dotT.induct)
  case 1
  show ?case using dotT_Ns [of r "[]"] by simp
next
  case (2 c ts)
  then show ?case by simp
next
  case (3 w ts)
  let ?ch = "chainT (W w # ts)"
  have c: "chainT (W w # ts @ map N r) = ?ch"
    using chainT_append_Ns [OF assms, of "W w # ts"] by simp
  show ?case
  proof (cases "4 \<le> length ?ch")
    case True
    have "length (chain_tokens ?ch) \<le> length (W w # ts)"
      using arg_cong [OF chainT_prefix [of "W w # ts"], of length] by simp
    then have "drop (length (chain_tokens ?ch)) (W w # ts @ map N r)
        = drop (length (chain_tokens ?ch)) (W w # ts) @ map N r"
      using drop_append [of "length (chain_tokens ?ch)" "W w # ts" "map N r"]
      by (simp del: drop_append)
    with "3.IH"(1) [OF True] True c show ?thesis by simp
  next
    case False
    with "3.IH"(2) c show ?thesis by simp
  qed
qed

subsection \<open>The replacements are the token functions\<close>

declare idents_at.simps [simp del] segments_at.simps [simp del]

lemma is_hex_word: "is_hex c \<Longrightarrow> is_word c"
  by (auto simp: is_hex_def is_hex_letter_def is_word_def is_alnum_def is_alpha_def)

lemma takeWhile_finer:
  assumes "\<And>c. P c \<Longrightarrow> Q c"
    and "case dropWhile P s of [] \<Rightarrow> True | c # cs \<Rightarrow> \<not> Q c"
  shows "takeWhile Q s = takeWhile P s \<and> dropWhile Q s = dropWhile P s"
  using assms(2)
proof (induction s)
  case Nil
  show ?case by simp
next
  case (Cons a s)
  then show ?case using assms(1) by (cases "P a") auto
qed

lemma takeWhile_coarser:
  assumes "\<And>c. P c \<Longrightarrow> Q c" and "\<forall>c \<in> set (takeWhile Q s). P c"
  shows "takeWhile P s = takeWhile Q s \<and> dropWhile P s = dropWhile Q s"
  using assms(2)
proof (induction s)
  case Nil
  show ?case by simp
next
  case (Cons a s)
  show ?case
  proof (cases "Q a")
    case True
    with Cons.prems have "P a" and "\<forall>c \<in> set (takeWhile Q s). P c" by simp_all
    with Cons.IH True show ?thesis by simp
  next
    case False
    then have "\<not> P a" using assms(1) by blast
    with False show ?thesis by simp
  qed
qed

lemma dropWhile_head: "case dropWhile P s of [] \<Rightarrow> True | c # cs \<Rightarrow> \<not> P c"
  by (induction s) auto

lemma take_length_takeWhile: "take (length (takeWhile P s)) s = takeWhile P s"
  by (induction s) auto

lemma drop_length_takeWhile: "drop (length (takeWhile P s)) s = dropWhile P s"
  by (induction s) auto

lemma tok_word:
  assumes "is_word c"
  shows "tok (c # cs) = W (c # takeWhile is_word cs) # tok (dropWhile is_word cs)"
proof -
  have "tok ((c # takeWhile is_word cs) @ dropWhile is_word cs)
      = W (c # takeWhile is_word cs) # tok (dropWhile is_word cs)"
  proof (rule tok_word_run)
    show "\<forall>a \<in> set (c # takeWhile is_word cs). is_word a"
      using assms by (auto dest: set_takeWhileD)
    show "case dropWhile is_word cs of [] \<Rightarrow> True | a # as \<Rightarrow> \<not> is_word a"
      by (rule dropWhile_head)
  qed simp
  then show ?thesis by simp
qed

lemma boundary_after_dropWhile: "boundary_after (dropWhile is_word s)"
  using dropWhile_head [of is_word s] by (simp add: boundary_after_def)

lemma match_hex_Some:
  assumes "match_hex prev s = Some n"
  shows "boundary_before prev" and "n = length (takeWhile is_hex s)" and "8 \<le> n"
    and "boundary_after (dropWhile is_hex s)"
  using assms by (auto simp: match_hex_def split: if_splits)

lemma match_hex_word_run:
  assumes "match_hex prev s = Some n"
  shows "takeWhile is_word s = takeWhile is_hex s" and "dropWhile is_word s = dropWhile is_hex s"
proof -
  have "case dropWhile is_hex s of [] \<Rightarrow> True | c # cs \<Rightarrow> \<not> is_word c"
    using match_hex_Some(4) [OF assms] by (simp add: boundary_after_def)
  then have "takeWhile is_word s = takeWhile is_hex s \<and> dropWhile is_word s = dropWhile is_hex s"
    by (intro takeWhile_finer) (auto intro: is_hex_word)
  then show "takeWhile is_word s = takeWhile is_hex s"
    and "dropWhile is_word s = dropWhile is_hex s" by simp_all
qed

lemma hexable_matches:
  assumes "hexable (takeWhile is_word s)" and "boundary_before prev"
  shows "match_hex prev s = Some (length (takeWhile is_word s))"
proof -
  have "\<forall>c \<in> set (takeWhile is_word s). is_hex c"
    using assms(1) by (simp add: hexable_def)
  then have eq: "takeWhile is_hex s = takeWhile is_word s \<and> dropWhile is_hex s = dropWhile is_word s"
    by (intro takeWhile_coarser) (auto intro: is_hex_word)
  moreover have "8 \<le> length (takeWhile is_word s)"
    using assms(1) by (simp add: hexable_def)
  ultimately show ?thesis
    using assms(2) boundary_after_dropWhile [of s] by (simp add: match_hex_def)
qed

lemma untok_hex_token:
  "8 \<le> length w \<Longrightarrow> \<forall>c \<in> set w. is_hex c
   \<Longrightarrow> untok (hexT (W w # ts)) = hex_run w @ untok (hexT ts)"
  by (auto simp: hexable_def hex_run_def simplifyHex_def)

lemma hex_on_tokens:
  "replace_all match_hex hex_run prev s =
     (if boundary_before prev then untok (hexT (tok s))
      else takeWhile is_word s @ untok (hexT (tok (dropWhile is_word s))))"
proof (induction s arbitrary: prev rule: length_induct)
  case (1 s)
  note IH = "1.IH" [rule_format]
  show ?case
  proof (cases s)
    case Nil
    then show ?thesis by simp
  next
    case (Cons c cs)
    show ?thesis
    proof (cases "is_word c")
      case False
      then have "\<not> is_hex c" using is_hex_word by blast
      then have "match_hex prev (c # cs) = None"
        by (simp add: match_hex_def)
      moreover have "boundary_before (Some c)"
        using False by (simp add: boundary_before_def)
      ultimately show ?thesis
        using Cons False IH [of cs "Some c"] by simp
    next
      case word: True
      show ?thesis
      proof (cases "match_hex prev (c # cs)")
        case None
        have rest: "replace_all match_hex hex_run (Some c) cs
            = takeWhile is_word cs @ untok (hexT (tok (dropWhile is_word cs)))"
          using IH [of cs "Some c"] Cons word by (simp add: boundary_before_def)
        have "boundary_before prev \<Longrightarrow> \<not> hexable (takeWhile is_word (c # cs))"
          using hexable_matches [of "c # cs" prev] None by auto
        moreover note tok_word [OF word, of cs]
        ultimately show ?thesis
          using None rest Cons word by (simp del: tok.simps)
      next
        case (Some n)
        note m = match_hex_Some [OF Some] match_hex_word_run [OF Some]
        from m(3) obtain k where n: "n = Suc k" by (cases n) auto
        let ?run = "takeWhile is_hex (c # cs)"
        let ?rest = "dropWhile is_hex (c # cs)"
        have hexc: "is_hex c" using m(2,3) by (cases "is_hex c") auto
        have k: "k = length (takeWhile is_hex cs)" using m(2) n hexc by simp
        have run: "c # take k cs = ?run"
          using hexc k by (simp add: take_length_takeWhile)
        have drop: "drop k cs = ?rest"
          using hexc k by (simp add: drop_length_takeWhile)
        have last_word: "\<not> boundary_before (Some (last ?run))"
        proof -
          have "last ?run \<in> set ?run" using hexc by (intro last_in_set) simp
          then have "is_hex (last ?run)" by (auto dest: set_takeWhileD)
          then show ?thesis by (simp add: boundary_before_def is_hex_word)
        qed
        have "length ?rest < length s"
          using Cons hexc by (simp add: length_dropWhile_le less_Suc_eq_le)
        from IH [OF this, of "Some (last ?run)"] last_word
        have rest: "replace_all match_hex hex_run (Some (last ?run)) ?rest
            = takeWhile is_word ?rest @ untok (hexT (tok (dropWhile is_word ?rest)))"
          by simp
        have none: "takeWhile is_word ?rest = []" "dropWhile is_word ?rest = ?rest"
          using m(4) by (cases ?rest; simp add: boundary_after_def)+
        have "replace_all match_hex hex_run prev (c # cs)
            = hex_run ?run @ replace_all match_hex hex_run (Some (last ?run)) ?rest"
          using Some n run drop by simp
        also have "\<dots> = hex_run ?run @ untok (hexT (tok ?rest))"
          using rest none by simp
        also have "\<dots> = untok (hexT (W ?run # tok ?rest))"
          using m(2,3) by (subst untok_hex_token) (auto dest: set_takeWhileD)
        also have "W ?run # tok ?rest = tok (c # cs)"
          using tok_word [OF word, of cs] m(5,6) word hexc by (simp del: tok.simps)
        finally show ?thesis using m(1) Cons by simp
      qed
    qed
  qed
qed

lemma is_alnum_word: "is_alnum c \<Longrightarrow> is_word c"
  by (simp add: is_word_def)

lemma is_alpha_alnum: "is_alpha c \<Longrightarrow> is_alnum c"
  by (simp add: is_alnum_def)

lemma not_alnum_dot: "\<not> is_alnum CHR ''.''"
  by (simp add: is_alnum_def is_alpha_def is_digit_def code_def)

lemma not_alnum_underscore: "\<not> is_alnum CHR ''_''"
  by (simp add: is_alnum_def is_alpha_def is_digit_def code_def)

lemma not_word_dot: "\<not> is_word CHR ''.''"
  by (simp add: is_word_def not_alnum_dot)

lemma word_not_alnum: "is_word c \<Longrightarrow> \<not> is_alnum c \<Longrightarrow> c = CHR ''_''"
  by (simp add: is_word_def)

lemma idents_at_Nil [simp]: "idents_at [] = []"
  by (subst idents_at.simps) simp

lemma idents_at_not_alpha: "\<not> is_alpha c \<Longrightarrow> idents_at (c # cs) = []"
  by (subst idents_at.simps) simp

lemma idents_at_end:
  "is_alpha c \<Longrightarrow> dropWhile is_alnum cs = [] \<Longrightarrow> idents_at (c # cs) = [c # takeWhile is_alnum cs]"
  by (subst idents_at.simps) (simp del: dropWhile_eq_Nil_conv)

lemma idents_at_more:
  "is_alpha c \<Longrightarrow> dropWhile is_alnum cs = d # rest \<Longrightarrow>
   idents_at (c # cs) =
     (if d = CHR ''.'' \<and> idents_at rest \<noteq> []
      then (c # takeWhile is_alnum cs) # idents_at rest else [c # takeWhile is_alnum cs])"
  by (subst idents_at.simps) simp

lemma is_ident_run: "is_alpha c \<Longrightarrow> is_ident (c # takeWhile is_alnum cs)"
  by (auto simp: is_ident_def dest: set_takeWhileD)

lemma ident_word: "is_ident w \<Longrightarrow> w \<noteq> [] \<and> (\<forall>c \<in> set w. is_word c)"
  by (cases w) (auto simp: is_ident_def is_alnum_word is_alpha_alnum)

lemma join_Cons: "ws \<noteq> [] \<Longrightarrow> join d (w # ws) = w @ d @ join d ws"
  by (cases ws) auto

lemma chainT_not_ident: "\<not> is_ident w \<Longrightarrow> chainT (W w # ts) = []"
  by (cases "W w # ts" rule: chainT.cases) auto

text \<open>The text at a position splits into the identifier, and what follows it.\<close>

lemma ident_split:
  "c # cs = (c # takeWhile is_alnum cs) @ dropWhile is_alnum cs"
  by simp

lemma dotted_at_tokens: "dotted_at s = chainT (tok s)"
proof (induction s rule: length_induct)
  case (1 s)
  note IH = "1.IH" [rule_format]
  show ?case
  proof (cases s)
    case Nil
    then show ?thesis by (simp add: dotted_at_def boundary_after_def)
  next
    case (Cons c cs)
    let ?id = "c # takeWhile is_alnum cs"
    show ?thesis
    proof (cases "is_alpha c")
      case False
      then have "dotted_at s = []"
        using Cons by (simp add: dotted_at_def idents_at_not_alpha)
      moreover have "chainT (tok s) = []"
      proof (cases "is_word c")
        case True
        have "\<not> is_ident (c # takeWhile is_word cs)"
          using False by (simp add: is_ident_def)
        then show ?thesis
          using Cons tok_word [OF True, of cs] by (simp add: chainT_not_ident del: tok.simps)
      next
        case False
        then show ?thesis using Cons by simp
      qed
      ultimately show ?thesis by simp
    next
      case alpha: True
      then have word: "is_word c" by (simp add: is_alnum_word is_alpha_alnum)
      have id: "is_ident ?id" using alpha by (rule is_ident_run)
      show ?thesis
      proof (cases "dropWhile is_alnum cs")
        case Nil
        then have i: "idents_at s = [?id]"
          using Cons alpha by (simp add: idents_at_end)
        have "drop (length ?id) s = dropWhile is_alnum cs"
          using Cons by (simp add: drop_length_takeWhile)
        with Nil i have "dotted_at s = [?id]"
          by (simp add: dotted_at_def boundary_after_def del: dropWhile_eq_Nil_conv)
        moreover have "s = ?id @ []"
          using ident_split [of c cs] Nil Cons by (simp del: dropWhile_eq_Nil_conv)
        then have "tok s = W ?id # tok []"
          using ident_word [OF id] by (subst tok_word_run [symmetric]) auto
        ultimately show ?thesis using id by simp
      next
        case (Cons d rest)
        have s: "s = ?id @ d # rest"
          using Cons \<open>s = c # cs\<close> by (metis ident_split)
        have nd: "\<not> is_alnum d"
          using dropWhile_head [of is_alnum cs] Cons by simp
        have ids: "idents_at s =
            (if d = CHR ''.'' \<and> idents_at rest \<noteq> [] then ?id # idents_at rest else [?id])"
          using \<open>s = c # cs\<close> alpha Cons by (simp add: idents_at_more)
        show ?thesis
        proof (cases "is_word d")
          case True
          then have "d \<noteq> CHR ''.''" using not_word_dot by auto
          with ids have "idents_at s = [?id]" by simp
          then have "dotted_at s = []"
            using s True by (simp add: dotted_at_def boundary_after_def)
          moreover have "chainT (tok s) = []"
          proof -
            have u: "d = CHR ''_''" using True nd by (rule word_not_alnum)
            have "takeWhile is_word cs = takeWhile is_alnum cs @ takeWhile is_word (d # rest)"
              using Cons by (metis is_alnum_word takeWhile_append2 takeWhile_dropWhile_id
                  set_takeWhileD)
            then have "CHR ''_'' \<in> set (takeWhile is_word cs)"
              using True u by simp
            then have "\<not> is_ident (c # takeWhile is_word cs)"
              using not_alnum_underscore by (auto simp: is_ident_def)
            then show ?thesis
              using tok_word [OF word, of cs] \<open>s = c # cs\<close>
              by (simp add: chainT_not_ident del: tok.simps)
          qed
          ultimately show ?thesis by simp
        next
          case False
          have t: "tok s = W ?id # N d # tok rest"
          proof -
            have "tok (?id @ d # rest) = W ?id # tok (d # rest)"
              using ident_word [OF id] False by (intro tok_word_run) auto
            with s False show ?thesis by simp
          qed
          have len: "length rest < length s"
            by (subst s) simp
          show ?thesis
          proof (cases "d = CHR ''.'' \<and> idents_at rest \<noteq> []")
            case True
            then have i: "idents_at s = ?id # idents_at rest" using ids by simp
            have j: "join ''.'' (?id # idents_at rest) = ?id @ ''.'' @ join ''.'' (idents_at rest)"
              using True by (intro join_Cons) simp
            have "drop (length (join ''.'' (idents_at s))) s
                = drop (length (join ''.'' (idents_at rest))) rest"
              using True by (subst (2) s) (simp add: i j del: join.simps)
            then have "dotted_at s = ?id # dotted_at rest"
              using True i by (auto simp: dotted_at_def Let_def)
            moreover have "dotted_at rest = chainT (tok rest)"
              using len by (rule IH)
            ultimately show ?thesis using t True id by auto
          next
            case False
            with ids have i: "idents_at s = [?id]" by simp
            have "boundary_after (d # rest)"
              using \<open>\<not> is_word d\<close> by (simp add: boundary_after_def)
            moreover have "drop (length ?id) s = d # rest"
              by (subst s) simp
            ultimately have "dotted_at s = [?id]"
              using i by (simp add: dotted_at_def)
            moreover have "d = CHR ''.'' \<Longrightarrow> chainT (tok rest) = []"
            proof -
              assume "d = CHR ''.''"
              with False have "idents_at rest = []" by simp
              then have "dotted_at rest = []" by (simp add: dotted_at_def)
              with IH [OF len] show ?thesis by simp
            qed
            ultimately show ?thesis using t id by auto
          qed
        qed
      qed
    qed
  qed
qed

lemma untok_chain_tokens: "untok (chain_tokens ch) = join ''.'' ch"
  by (induction ch rule: chain_tokens.induct) auto

lemma split_on_no: "d \<notin> set w \<Longrightarrow> split_on d w = [w]"
  by (induction w) auto

lemma split_on_append: "d \<notin> set w \<Longrightarrow> split_on d (w @ d # rest) = w # split_on d rest"
  by (induction w) auto

lemma split_join:
  "ch \<noteq> [] \<Longrightarrow> \<forall>w \<in> set ch. d \<notin> set w \<Longrightarrow> split_on d (join [d] ch) = ch"
  by (induction ch rule: induct_list012) (auto simp: split_on_no split_on_append)

lemma ident_no_dot: "is_ident w \<Longrightarrow> CHR ''.'' \<notin> set w"
  using not_alnum_dot by (cases w) (auto simp: is_ident_def dest: is_alpha_alnum)

lemma join_nonempty_last: "ch \<noteq> [] \<Longrightarrow> last ch \<noteq> [] \<Longrightarrow> join d ch \<noteq> []"
  by (induction ch rule: induct_list012) auto

lemma last_join:
  "ch \<noteq> [] \<Longrightarrow> last ch \<noteq> [] \<Longrightarrow> last (join d ch) = last (last ch)"
proof (induction ch rule: induct_list012)
  case (3 x y zs)
  then have "join d (y # zs) \<noteq> []" by (intro join_nonempty_last) auto
  with 3 show ?case by simp
qed auto

lemma join_nonempty: "ch \<noteq> [] \<Longrightarrow> hd ch \<noteq> [] \<Longrightarrow> join d ch \<noteq> []"
  by (induction ch rule: induct_list012) auto

lemma dotted_path_chain:
  assumes "ch \<noteq> []" and "\<forall>w \<in> set ch. is_ident w"
  shows "dotted_path (join ''.'' ch) = untok (outT ch)"
proof -
  have "split_on CHR ''.'' (join [CHR ''.''] ch) = ch"
    using assms by (intro split_join) (auto dest: ident_no_dot)
  then have "simplifyDottedPath (join ''.'' ch) = last ch"
    using assms(1) by (simp add: simplifyDottedPath_def last_conv_nth)
  then show ?thesis
    by (simp add: dotted_path_def outT_def keeps_def untok_chain_tokens)
qed

lemma no_word_first_untok:
  assumes "normal r" and "no_word_first r"
  shows "takeWhile is_word (untok r) = []" and "dropWhile is_word (untok r) = untok r"
  using assms by (cases r rule: untok.cases; simp add: no_word_first_def)+

lemma dot_on_tokens:
  "replace_all match_dotted dotted_path prev s =
     (if boundary_before prev then untok (dotT (tok s))
      else takeWhile is_word s @ untok (dotT (tok (dropWhile is_word s))))"
proof (induction s arbitrary: prev rule: length_induct)
  case (1 s)
  note IH = "1.IH" [rule_format]
  show ?case
  proof (cases s)
    case Nil
    then show ?thesis by simp
  next
    case (Cons c cs)
    show ?thesis
    proof (cases "is_word c")
      case False
      then have "dotted_at (c # cs) = []"
        by (simp add: dotted_at_tokens)
      then have "match_dotted prev (c # cs) = None"
        by (simp add: match_dotted_def)
      moreover have "boundary_before (Some c)"
        using False by (simp add: boundary_before_def)
      ultimately show ?thesis
        using Cons False IH [of cs "Some c"] by simp
    next
      case word: True
      let ?run = "c # takeWhile is_word cs"
      let ?rest = "dropWhile is_word cs"
      note t = tok_word [OF word, of cs]
      show ?thesis
      proof (cases "match_dotted prev (c # cs)")
        case None
        have rest: "replace_all match_dotted dotted_path (Some c) cs
            = takeWhile is_word cs @ untok (dotT (tok ?rest))"
          using IH [of cs "Some c"] Cons word by (simp add: boundary_before_def)
        have "boundary_before prev \<Longrightarrow> \<not> 4 \<le> length (chainT (W ?run # tok ?rest))"
          using None t by (simp add: match_dotted_def dotted_at_tokens del: tok.simps split: if_splits)
        then have "boundary_before prev \<Longrightarrow> dotT (W ?run # tok ?rest) = W ?run # dotT (tok ?rest)"
          by simp
        then show ?thesis
          using None rest Cons word t by (simp del: tok.simps dotT.simps)
      next
        case (Some n)
        let ?ch = "chainT (tok s)"
        let ?R = "drop (length (chain_tokens ?ch)) (tok s)"
        have b: "boundary_before prev" and len: "4 \<le> length ?ch"
          and n: "n = length (join ''.'' ?ch)"
          using Some Cons by (auto simp: match_dotted_def dotted_at_tokens split: if_splits)
        have ne: "?ch \<noteq> []" using len by auto
        have idents: "\<forall>w \<in> set ?ch. is_ident w" by (auto dest: chainT_idents)
        have split: "s = join ''.'' ?ch @ untok ?R"
        proof -
          have "untok (tok s) = untok (chain_tokens ?ch @ ?R)"
            using chainT_split [of "tok s"] by simp
          then show ?thesis by (simp add: untok_tok untok_append untok_chain_tokens)
        qed
        have nonempty: "join ''.'' ?ch \<noteq> []"
          using ne idents by (intro join_nonempty) (auto dest!: ident_word hd_in_set)
        then have "0 < n" using n by simp
        then obtain k where k: "n = Suc k" by (auto simp: gr0_conv_Suc)
        have take: "c # take k cs = join ''.'' ?ch"
        proof -
          have "take n s = join ''.'' ?ch" by (subst split) (simp add: n)
          then show ?thesis using k Cons by simp
        qed
        have drop: "drop k cs = untok ?R"
        proof -
          have "drop n s = untok ?R" by (subst split) (simp add: n)
          then show ?thesis using k Cons by simp
        qed
        have last_word: "\<not> boundary_before (Some (last (join ''.'' ?ch)))"
        proof -
          have "is_ident (last ?ch)" using ne idents by simp
          then have l: "last ?ch \<noteq> [] \<and> (\<forall>c \<in> set (last ?ch). is_word c)" by (rule ident_word)
          then have "last (join ''.'' ?ch) = last (last ?ch)" using ne by (intro last_join) auto
          moreover have "last (last ?ch) \<in> set (last ?ch)" using l by simp
          ultimately show ?thesis using l by (simp add: boundary_before_def)
        qed
        have normalR: "normal ?R" by (intro normal_drop normal_tok)
        have nowf: "no_word_first ?R"
          using ne by (intro chainT_rest_head normal_tok)
        note none = no_word_first_untok [OF normalR nowf]
        have "length (untok ?R) < length s"
          using nonempty by (subst (2) split) simp
        from IH [OF this, of "Some (last (join ''.'' ?ch))"] last_word
        have rest: "replace_all match_dotted dotted_path (Some (last (join ''.'' ?ch))) (untok ?R)
            = untok (dotT ?R)"
          using none tok_untok [OF normalR] by simp
        have "replace_all match_dotted dotted_path prev (c # cs)
            = dotted_path (join ''.'' ?ch)
              @ replace_all match_dotted dotted_path (Some (last (join ''.'' ?ch))) (untok ?R)"
          using Some k take drop by simp
        also have "\<dots> = untok (outT ?ch @ dotT ?R)"
          using rest dotted_path_chain [OF ne idents] by (simp add: untok_append)
        also have "outT ?ch @ dotT ?R = dotT (tok s)"
          using len t Cons by (simp del: tok.simps)
        finally show ?thesis using b Cons by simp
      qed
    qed
  qed
qed

subsection \<open>Runs of spaces\<close>

fun collS :: "string \<Rightarrow> string" where
  "collS (a # b # s) =
     (if a = CHR '' '' \<and> b = CHR '' '' then collS (b # s) else a # collS (b # s))"
| "collS s = s"

fun ndS :: "string \<Rightarrow> bool" where
  "ndS (a # b # s) = (\<not> (a = CHR '' '' \<and> b = CHR '' '') \<and> ndS (b # s))"
| "ndS s = True"

lemma collS_Cons:
  "\<not> (a = CHR '' '' \<and> (case s of [] \<Rightarrow> False | b # t \<Rightarrow> b = CHR '' ''))
   \<Longrightarrow> collS (a # s) = a # collS s"
  by (cases s) auto

lemma collS_run:
  "(case rest of [] \<Rightarrow> True | b # t \<Rightarrow> b \<noteq> CHR '' '')
   \<Longrightarrow> collS (replicate (Suc m) CHR '' '' @ rest) = CHR '' '' # collS rest"
proof (induction m)
  case 0
  then show ?case by (cases rest) auto
next
  case (Suc m)
  then show ?case by simp
qed

lemma takeWhile_replicate: "takeWhile (\<lambda>c. c = a) s = replicate (length (takeWhile (\<lambda>c. c = a) s)) a"
  by (induction s) auto

lemma spaces_on_strings: "replace_all match_spaces (\<lambda>m. '' '') prev s = collS s"
proof (induction s arbitrary: prev rule: length_induct)
  case (1 s)
  note IH = "1.IH" [rule_format]
  show ?case
  proof (cases s)
    case Nil
    then show ?thesis by simp
  next
    case (Cons c cs)
    let ?run = "takeWhile (\<lambda>c. c = CHR '' '') s"
    let ?rest = "dropWhile (\<lambda>c. c = CHR '' '') s"
    show ?thesis
    proof (cases "2 \<le> length ?run")
      case True
      then obtain k where k: "length ?run = Suc k" by (cases "length ?run") auto
      have m: "match_spaces prev (c # cs) = Some (Suc k)"
        using True k Cons by (simp add: match_spaces_def)
      have "drop (Suc k) s = ?rest"
        using drop_length_takeWhile [of "\<lambda>c. c = CHR '' ''" s] k by simp
      then have drop: "drop k cs = ?rest" using Cons by simp
      have "length ?rest < length s"
        using k length_append [of ?run ?rest] by (simp del: length_append)
      then have rest: "replace_all match_spaces (\<lambda>m. '' '') (Some (last (c # take k cs))) ?rest
          = collS ?rest"
        by (rule IH)
      have run: "?run = replicate (Suc k) CHR '' ''"
        using takeWhile_replicate [of "CHR '' ''" s] k by (simp del: replicate_Suc)
      have "s = ?run @ ?rest" by simp
      then have "s = replicate (Suc k) CHR '' '' @ ?rest" unfolding run .
      then have "collS s = collS (replicate (Suc k) CHR '' '' @ ?rest)" by (rule arg_cong)
      moreover have "case ?rest of [] \<Rightarrow> True | b # t \<Rightarrow> b \<noteq> CHR '' ''"
        using dropWhile_head [of "\<lambda>c. c = CHR '' ''" s] by simp
      ultimately have "collS s = CHR '' '' # collS ?rest"
        using collS_run [of ?rest k] by (simp del: replicate_Suc collS.simps)
      then show ?thesis
        using m rest drop Cons by simp
    next
      case False
      then have m: "match_spaces prev (c # cs) = None"
        using Cons by (simp add: match_spaces_def)
      have "\<not> (c = CHR '' '' \<and> (case cs of [] \<Rightarrow> False | b # t \<Rightarrow> b = CHR '' ''))"
        using False Cons by (cases cs) auto
      then have "collS (c # cs) = c # collS cs" by (rule collS_Cons)
      then show ?thesis
        using m Cons IH [of cs "Some c"] by simp
    qed
  qed
qed

lemma collS_first: "\<exists>u. collS (b # s) = b # u"
  by (induction s arbitrary: b) auto

lemma ndS_collS: "ndS (collS s)"
proof (induction s rule: collS.induct)
  case (1 a b s)
  obtain u where u: "collS (b # s) = b # u" using collS_first by blast
  with 1 show ?case by auto
qed auto

lemma ndS_id: "ndS s \<Longrightarrow> collS s = s"
  by (induction s rule: collS.induct) auto

lemma ndS_tl: "ndS (a # s) \<Longrightarrow> ndS s"
  by (cases s) auto

lemma ndS_drop: "ndS s \<Longrightarrow> ndS (drop n s)"
proof (induction n arbitrary: s)
  case 0
  then show ?case by simp
next
  case (Suc n)
  then show ?case by (cases s) (auto dest: ndS_tl)
qed

lemma ndS_take: "ndS s \<Longrightarrow> ndS (take n s)"
proof (induction s arbitrary: n rule: ndS.induct)
  case (1 a b s)
  show ?case
  proof (cases n)
    case 0
    then show ?thesis by simp
  next
    case (Suc m)
    show ?thesis
    proof (cases m)
      case 0
      with Suc show ?thesis by simp
    next
      case (Suc k)
      have "ndS (b # s)" using "1.prems" by simp
      then have "ndS (take (Suc k) (b # s))" by (rule "1.IH")
      with Suc \<open>n = Suc m\<close> 1 show ?thesis by simp
    qed
  qed
qed (auto simp: take_Cons split: nat.splits)

subsection \<open>Trimming\<close>

lemma trim_take: "\<exists>k. trim s = take k (dropWhile is_space s)"
proof -
  let ?y = "dropWhile is_space s"
  have "dropWhile is_space (rev ?y) = drop (length (takeWhile is_space (rev ?y))) (rev ?y)"
    by (rule dropWhile_eq_drop)
  then have "trim s = rev (drop (length (takeWhile is_space (rev ?y))) (rev ?y))"
    by (simp add: trim_def)
  also have "\<dots> = take (length ?y - length (takeWhile is_space (rev ?y))) ?y"
    by (simp add: rev_drop)
  finally show ?thesis by blast
qed

lemma ndS_trim:
  assumes "ndS s"
  shows "ndS (trim s)"
proof -
  obtain k where k: "trim s = take k (dropWhile is_space s)" using trim_take by blast
  have "ndS (drop (length (takeWhile is_space s)) s)" using assms by (rule ndS_drop)
  then have "ndS (dropWhile is_space s)" by (simp only: dropWhile_eq_drop [symmetric])
  then show ?thesis unfolding k by (rule ndS_take)
qed

lemma trim_split:
  "\<exists>l r. s = l @ trim s @ r \<and> (\<forall>c \<in> set l. is_space c) \<and> (\<forall>c \<in> set r. is_space c)"
proof -
  let ?y = "dropWhile is_space s"
  have "rev (dropWhile is_space (rev ?y)) @ rev (takeWhile is_space (rev ?y))
      = rev (takeWhile is_space (rev ?y) @ dropWhile is_space (rev ?y))"
    by (simp only: rev_append)
  also have "\<dots> = rev (rev ?y)" by (simp only: takeWhile_dropWhile_id)
  finally have y: "?y = trim s @ rev (takeWhile is_space (rev ?y))"
    by (simp add: trim_def)
  have "s = takeWhile is_space s @ ?y" by simp
  then have "s = takeWhile is_space s @ trim s @ rev (takeWhile is_space (rev ?y))"
    using y by simp
  moreover have "\<forall>c \<in> set (takeWhile is_space s). is_space c" by (auto dest: set_takeWhileD)
  moreover have "\<forall>c \<in> set (rev (takeWhile is_space (rev ?y))). is_space c"
    by (auto dest: set_takeWhileD)
  ultimately show ?thesis by blast
qed

lemma trim_idem: "trim (trim s) = trim s"
proof -
  let ?y = "dropWhile is_space s"
  let ?t = "trim s"
  have "dropWhile is_space ?t = ?t"
  proof (cases "?t = []")
    case True
    then show ?thesis by simp
  next
    case False
    obtain k where k: "?t = take k ?y" using trim_take by blast
    have "?y \<noteq> []" using False k by auto
    then have "\<not> is_space (hd ?y)" by (rule hd_dropWhile)
    moreover have "0 < k" using False k by (cases k) auto
    then have "hd (take k ?y) = hd ?y" by (rule hd_take)
    ultimately show ?thesis using k by (simp add: dropWhile_eq_self_iff)
  qed
  then have "trim ?t = rev (dropWhile is_space (rev ?t))" by (simp add: trim_def)
  also have "rev ?t = dropWhile is_space (rev ?y)" by (simp add: trim_def)
  finally show ?thesis by (simp add: trim_def)
qed

subsection \<open>Normalizing twice\<close>

lemma collS_word: "CHR '' '' \<notin> set w \<Longrightarrow> collS (w @ u) = w @ collS u"
proof (induction w)
  case Nil
  show ?case by simp
next
  case (Cons a w)
  from Cons.prems have "a \<noteq> CHR '' ''" by auto
  then have "collS (a # (w @ u)) = a # collS (w @ u)"
    by (intro collS_Cons) simp
  with Cons show ?case by simp
qed

lemma word_no_space: "\<forall>c \<in> set w. is_word c \<Longrightarrow> CHR '' '' \<notin> set w"
  using not_word_space by blast

lemma untok_collT: "normal ts \<Longrightarrow> untok (collT ts) = collS (untok ts)"
proof (induction ts rule: collT.induct, goal_cases)
  case (1 a b ts)
  then show ?case by auto
next
  case (2 w ts)
  then show ?case by (simp add: collS_word word_no_space)
next
  case (3 t)
  show ?case
  proof (cases t)
    case (W v)
    then have "CHR '' '' \<notin> set v" using 3(2) by (simp add: word_no_space)
    then have "collS (v @ []) = v @ collS []" by (rule collS_word)
    with W show ?thesis by simp
  next
    case (N a)
    then show ?thesis by simp
  qed
next
  case (4 t w ts)
  show ?case
  proof (cases t)
    case (W v)
    with 4(2) show ?thesis by simp
  next
    case (N a)
    have "w \<noteq> []" and "\<forall>c \<in> set w. is_word c" using 4(2) N by simp_all
    then have "collS (a # (w @ untok ts)) = a # collS (w @ untok ts)"
      using not_word_space by (intro collS_Cons) (cases w; auto)
    with 4 N show ?thesis by (simp add: collS_word word_no_space)
  qed
next
  case 5
  show ?case by simp
qed

lemma no_word_first_collT: "no_word_first (collT ts) = no_word_first ts"
proof (cases ts)
  case Nil
  then show ?thesis by simp
next
  case (Cons t us)
  show ?thesis
  proof (cases t)
    case (W w)
    with Cons show ?thesis by (simp add: collT_W no_word_first_def)
  next
    case (N d)
    obtain vs where "collT (N d # us) = N d # vs" using collT_N_first by blast
    with Cons N show ?thesis by (simp add: no_word_first_def)
  qed
qed

lemma normal_collT: "normal ts \<Longrightarrow> normal (collT ts)"
proof (induction ts rule: collT.induct, goal_cases)
  case (1 a b ts)
  then show ?case by auto
next
  case (2 w ts)
  have "no_word_first (collT ts) = no_word_first ts" by (rule no_word_first_collT)
  with 2 show ?case by (simp add: no_word_first_def)
next
  case (3 t)
  then show ?case by simp
next
  case (4 t w ts)
  then show ?case by (cases t) auto
next
  case 5
  show ?case by simp
qed

lemma words_collT: "words (collT ts) \<subseteq> words ts"
proof (induction ts rule: collT.induct, goal_cases)
  case (4 t w ts)
  then show ?case by (cases t) auto
qed auto

lemma tok_Ns: "\<forall>c \<in> set l. \<not> is_word c \<Longrightarrow> tok (l @ x) = map N l @ tok x"
  by (induction l) auto

lemma tok_append_Ns: "\<forall>c \<in> set r. \<not> is_word c \<Longrightarrow> tok (x @ r) = tok x @ map N r"
proof (induction x)
  case Nil
  then show ?case using tok_Ns [of r "[]"] by simp
next
  case (Cons a x)
  then show ?case by (cases "tok x"; cases r) (auto split: token.splits)
qed

lemma is_space_not_word: "is_space c \<Longrightarrow> \<not> is_word c"
  by (auto simp: is_space_def is_word_def is_alnum_def is_alpha_def is_digit_def code_def)

lemma is_space_not_dot: "is_space c \<Longrightarrow> c \<noteq> CHR ''.''"
  by (auto simp: is_space_def code_def)

text \<open>The last three steps, on tokens.\<close>

lemma last_steps:
  "trim (replace_all match_spaces (\<lambda>m. '' '') None
      (replace_all match_dotted dotted_path None (replace_all match_hex hex_run None x)))
   = trim (collS (untok (dotT (hexT (tok x)))))"
proof -
  have "replace_all match_hex hex_run None x = untok (hexT (tok x))"
    by (simp add: hex_on_tokens boundary_before_def)
  moreover have "tok (untok (hexT (tok x))) = hexT (tok x)"
    by (intro tok_untok normal_hexT normal_tok)
  ultimately show ?thesis
    by (simp add: dot_on_tokens spaces_on_strings boundary_before_def)
qed

lemma last_steps_idem:
  assumes "r = trim (collS (untok (dotT (hexT (tok x)))))"
  shows "trim (collS (untok (dotT (hexT (tok r))))) = r"
proof -
  let ?X = "hexT (tok x)"
  let ?Y = "dotT ?X"
  let ?z = "collS (untok ?Y)"
  have nX: "normal ?X" by (intro normal_hexT normal_tok)
  have nY: "normal ?Y" using nX by (rule normal_dotT)
  have nC: "normal (collT ?Y)" using nY by (rule normal_collT)
  have z: "tok ?z = collT ?Y"
    using untok_collT [OF nY] tok_untok [OF nC] by simp
  have "dotT (collT ?Y) = collT (dotT ?Y)" using nY by (rule dotT_collT)
  also have "dotT ?Y = ?Y" using nX by (rule dotT_idem)
  finally have dz: "dotT (tok ?z) = tok ?z" using z by simp
  have wz: "\<forall>w \<in> words (tok ?z). \<not> hexable w"
  proof
    fix w assume "w \<in> words (tok ?z)"
    then have "w \<in> words ?X" using z words_collT [of ?Y] words_dotT [of ?X] by auto
    then show "\<not> hexable w" by (rule hexT_words)
  qed
  obtain l rr where split: "?z = l @ r @ rr"
    and l: "\<forall>c \<in> set l. is_space c" and rr: "\<forall>c \<in> set rr. is_space c"
    using trim_split [of ?z] assms by auto
  have tz: "tok ?z = map N l @ tok r @ map N rr"
  proof -
    have "tok (l @ (r @ rr)) = map N l @ tok (r @ rr)"
      using l by (intro tok_Ns) (auto dest: is_space_not_word)
    moreover have "tok (r @ rr) = tok r @ map N rr"
      using rr by (intro tok_append_Ns) (auto dest: is_space_not_word)
    ultimately show ?thesis using split by simp
  qed
  have "\<forall>w \<in> words (tok r). \<not> hexable w" using wz tz by simp
  then have h: "hexT (tok r) = tok r" by (rule hexT_id)
  have "dotT (map N l @ tok r @ map N rr) = map N l @ dotT (tok r @ map N rr)"
    by (rule dotT_Ns)
  moreover have "dotT (tok r @ map N rr) = dotT (tok r) @ map N rr"
    using rr by (intro dotT_append_Ns) (cases rr; auto dest: is_space_not_dot)
  ultimately have "map N l @ dotT (tok r) @ map N rr = map N l @ tok r @ map N rr"
    using dz tz by simp
  then have d: "dotT (tok r) = tok r" by simp
  have "ndS ?z" by (rule ndS_collS)
  then have "ndS r" unfolding assms by (rule ndS_trim)
  then have c: "collS r = r" by (rule ndS_id)
  have "trim r = r" unfolding assms by (rule trim_idem)
  with h d c show ?thesis by (simp add: untok_tok)
qed

text \<open>
  C8, as stated, fails. A doubled slash ends the absolute-path match before it, so the
  first pass shortens only \<open>/a/b/c\<close> to \<open>b/c\<close>; the result \<open>/c++/b/c\<close> is itself an
  absolute path of three segments, which the second pass shortens again.
\<close>

theorem normalize_not_idempotent:
  "normalizeTTSText (\<lambda>url. None) (normalizeTTSText (\<lambda>url. None) ''/c++//a/b/c'') = ''b/c''
   \<and> normalizeTTSText (\<lambda>url. None) ''/c++//a/b/c'' = ''/c++/b/c''"
  by code_simp

text \<open>
  C8, amended. Whenever the normalized text holds at most one slash, for any input and
  any behaviour of the URL parser, normalizing it again changes nothing.
\<close>

theorem normalize_idempotent_few_slashes:
  assumes "slashes (normalizeTTSText hostname s) \<le> 1"
  shows "normalizeTTSText hostname (normalizeTTSText hostname s) = normalizeTTSText hostname s"
proof -
  let ?r = "normalizeTTSText hostname s"
  let ?x = "replace_all match_rel relative_path None
      (replace_all match_abs simplifyPath None
        (replace_all match_url (simplifyUrl hostname) None s))"
  have r: "?r = trim (collS (untok (dotT (hexT (tok ?x)))))"
    using last_steps [of ?x] by (simp add: normalizeTTSText_def)
  have "normalizeTTSText hostname ?r = trim (collS (untok (dotT (hexT (tok ?r)))))"
    using few_slashes_untouched [OF assms] last_steps [of ?r]
    by (simp add: normalizeTTSText_def)
  also have "\<dots> = ?r" using r by (rule last_steps_idem)
  finally show ?thesis .
qed

definition sample_hostname :: "string \<Rightarrow> string option" where
  "sample_hostname url = Some ''api.example.com''"

theorem normalize_idempotent_witness:
  "slashes (normalizeTTSText sample_hostname ''https://api.example.com/v2/users/123?q=foo'') \<le> 1
   \<and> normalizeTTSText sample_hostname
        (normalizeTTSText sample_hostname ''https://api.example.com/v2/users/123?q=foo'')
      = ''api dot example dot com''
   \<and> slashes (normalizeTTSText sample_hostname ''/Users/jeff/dev/hooks/lib/utils'') \<le> 1
   \<and> normalizeTTSText sample_hostname
        (normalizeTTSText sample_hostname ''/Users/jeff/dev/hooks/lib/utils'') = ''lib/utils''
   \<and> slashes (normalizeTTSText sample_hostname ''0123456789abcdef0123456789abcdef'') \<le> 1
   \<and> normalizeTTSText sample_hostname
        (normalizeTTSText sample_hostname ''0123456789abcdef0123456789abcdef'') = ''hash 012345''
   \<and> slashes (normalizeTTSText sample_hostname ''com.example.app.Main'') \<le> 1
   \<and> normalizeTTSText sample_hostname
        (normalizeTTSText sample_hostname ''com.example.app.Main'') = ''Main''"
proof -
  have url: "normalizeTTSText sample_hostname ''https://api.example.com/v2/users/123?q=foo''
      = ''api dot example dot com''"
    by code_simp
  have path: "normalizeTTSText sample_hostname ''/Users/jeff/dev/hooks/lib/utils'' = ''lib/utils''"
    by code_simp
  have hex: "normalizeTTSText sample_hostname ''0123456789abcdef0123456789abcdef'' = ''hash 012345''"
    by code_simp
  have dotted: "normalizeTTSText sample_hostname ''com.example.app.Main'' = ''Main''"
    by code_simp
  have few: "slashes ''api dot example dot com'' \<le> 1" "slashes ''lib/utils'' \<le> 1"
    "slashes ''hash 012345'' \<le> 1" "slashes ''Main'' \<le> 1"
    by code_simp+
  have "slashes (normalizeTTSText sample_hostname ''https://api.example.com/v2/users/123?q=foo'') \<le> 1"
    using few(1) by (simp only: url)
  note a = this normalize_idempotent_few_slashes [OF this]
  have "slashes (normalizeTTSText sample_hostname ''/Users/jeff/dev/hooks/lib/utils'') \<le> 1"
    using few(2) by (simp only: path)
  note b = this normalize_idempotent_few_slashes [OF this]
  have "slashes (normalizeTTSText sample_hostname ''0123456789abcdef0123456789abcdef'') \<le> 1"
    using few(3) by (simp only: hex)
  note c = this normalize_idempotent_few_slashes [OF this]
  have "slashes (normalizeTTSText sample_hostname ''com.example.app.Main'') \<le> 1"
    using few(4) by (simp only: dotted)
  note d = this normalize_idempotent_few_slashes [OF this]
  show ?thesis
    using a b c d by (simp only: url path hex dotted simp_thms)
qed

end
